theory Spec2Isabelle
  imports Complex_Main
begin

section \<open>Python values used by \<open>generate_cone.py\<close>\<close>

text \<open>
  The script raises only \<open>ValueError\<close> inside the detector: from \<open>int(...)\<close> on a
  malformed field and from unpacking a key that does not have three fields.
\<close>

datatype py_error = ValueError

text \<open>
  A Python \<open>dict\<close> keeps its keys in insertion order and the detector iterates over
  it, so a dict is an association list in insertion order. \<open>dict_get\<close> is
  \<open>d.get(k)\<close> (\<open>k in d\<close> is \<open>dict_get d k \<noteq> None\<close>), \<open>dict_set\<close> is \<open>d[k] = v\<close>:
  an existing key keeps its position and takes the new value, a new key goes to the end.
  \<open>dict_update\<close> is \<open>d.update(e)\<close>.
\<close>

type_synonym ('k, 'v) pydict = "('k \<times> 'v) list"

definition dict_get :: "('k, 'v) pydict \<Rightarrow> 'k \<Rightarrow> 'v option" where
  "dict_get d k = map_of d k"

definition dict_set :: "('k, 'v) pydict \<Rightarrow> 'k \<Rightarrow> 'v \<Rightarrow> ('k, 'v) pydict" where
  "dict_set d k v =
     (if dict_get d k = None then d @ [(k, v)]
      else map (\<lambda>(k', v'). if k' = k then (k', v) else (k', v')) d)"

definition dict_update :: "('k, 'v) pydict \<Rightarrow> ('k, 'v) pydict \<Rightarrow> ('k, 'v) pydict" where
  "dict_update d e = fold (\<lambda>(k, v) acc. dict_set acc k v) e d"

section \<open>Grid addressing: the key \<open>"x,y,z"\<close>\<close>

text \<open>
  \<open>str_int\<close> is Python's \<open>str\<close> on an \<open>int\<close>, as the f-strings
  \<^verbatim>\<open>f"{nx},0,{nz}"\<close> and \<^verbatim>\<open>f"{x + center_x},{-y},{z + center_z}"\<close> use it:
  decimal digits, most significant first, no padding, a leading \<open>-\<close> below zero.
\<close>

definition digit_char :: "nat \<Rightarrow> char" where
  "digit_char d = ''0123456789'' ! d"

fun str_nat :: "nat \<Rightarrow> string" where
  "str_nat n = (if n < 10 then [digit_char n] else str_nat (n div 10) @ [digit_char (n mod 10)])"

declare str_nat.simps [simp del]

definition str_int :: "int \<Rightarrow> string" where
  "str_int i = (if i < 0 then CHR ''-'' # str_nat (nat (- i)) else str_nat (nat i))"

definition coord_key :: "int \<Rightarrow> int \<Rightarrow> int \<Rightarrow> string" where
  "coord_key x y z = str_int x @ '','' @ str_int y @ '','' @ str_int z"

text \<open>
  \<open>py_int\<close> is Python's \<open>int\<close> on a \<open>str\<close> whose characters are the code points
  below 256, one \<open>char\<close> each: surrounding white space is dropped, one sign is
  allowed, then decimal digits, where single underscores may separate digits. Anything
  else raises \<open>ValueError\<close>. The white space \<open>int\<close> drops is the space, the
  controls \<open>0x09\<close> to \<open>0x0D\<close>, and the two spaces outside ASCII below 256, \<open>0x85\<close>
  and \<open>0xA0\<close>; the separators \<open>0x1C\<close> to \<open>0x1F\<close> are not dropped. (Code points
  from 256 on, among them further spaces and decimal digits that \<open>int\<close> accepts, are
  outside \<open>char\<close>.)
\<close>

definition digit_val :: "char \<Rightarrow> nat option" where
  "digit_val c = map_of
     [(CHR ''0'', 0), (CHR ''1'', 1), (CHR ''2'', 2), (CHR ''3'', 3), (CHR ''4'', 4),
      (CHR ''5'', 5), (CHR ''6'', 6), (CHR ''7'', 7), (CHR ''8'', 8), (CHR ''9'', 9)] c"

definition is_space :: "char \<Rightarrow> bool" where
  "is_space c \<longleftrightarrow> c \<in> set [CHR '' '', CHR 0x09, CHR 0x0A, CHR 0x0B, CHR 0x0C, CHR 0x0D,
                            CHR 0x85, CHR 0xA0]"

definition strip :: "string \<Rightarrow> string" where
  "strip s = rev (dropWhile is_space (rev (dropWhile is_space s)))"

fun digits_value :: "nat \<Rightarrow> string \<Rightarrow> nat option" where
  "digits_value acc [] = None"
| "digits_value acc (c # cs) =
     (case digit_val c of
        None \<Rightarrow> None
      | Some d \<Rightarrow>
          (case cs of
             [] \<Rightarrow> Some (10 * acc + d)
           | c' # cs' \<Rightarrow>
               if c' = CHR ''_'' then digits_value (10 * acc + d) cs'
               else digits_value (10 * acc + d) cs))"

definition py_int :: "string \<Rightarrow> py_error + int" where
  "py_int s =
     (case strip s of
        [] \<Rightarrow> Inl ValueError
      | c # cs \<Rightarrow>
          if c = CHR ''-'' then
            (case digits_value 0 cs of None \<Rightarrow> Inl ValueError | Some n \<Rightarrow> Inr (- int n))
          else if c = CHR ''+'' then
            (case digits_value 0 cs of None \<Rightarrow> Inl ValueError | Some n \<Rightarrow> Inr (int n))
          else
            (case digits_value 0 (c # cs) of None \<Rightarrow> Inl ValueError | Some n \<Rightarrow> Inr (int n)))"

text \<open>\<open>split_comma\<close> is \<open>coord.split(',')\<close>: one field more than there are commas.\<close>

fun split_comma :: "string \<Rightarrow> string list" where
  "split_comma [] = [[]]"
| "split_comma (c # cs) =
     (if c = CHR '','' then [] # split_comma cs
      else (case split_comma cs of [] \<Rightarrow> [[c]] | w # ws \<Rightarrow> (c # w) # ws))"

text \<open>
  \<open>decode_key\<close> is \<^verbatim>\<open>x, y, z = map(int, coord.split(','))\<close>: the unpacking raises
  \<open>ValueError\<close> unless there are exactly three fields, and so does \<open>int\<close> on a field
  that is not an integer literal.
\<close>

definition decode_key :: "string \<Rightarrow> py_error + (int \<times> int \<times> int)" where
  "decode_key coord =
     (case split_comma coord of
        [a, b, c] \<Rightarrow>
          (case py_int a of
             Inl e \<Rightarrow> Inl e
           | Inr x \<Rightarrow>
               (case py_int b of
                  Inl e \<Rightarrow> Inl e
                | Inr y \<Rightarrow> (case py_int c of Inl e \<Rightarrow> Inl e | Inr z \<Rightarrow> Inr (x, y, z))))
      | _ \<Rightarrow> Inl ValueError)"

subsection \<open>Facts about the codec\<close>

lemma digit_val_digit_char: "d < 10 \<Longrightarrow> digit_val (digit_char d) = Some d"
proof -
  assume "d < 10"
  then have "d \<in> {0, 1, 2, 3, 4, 5, 6, 7, 8, 9}" by auto
  then show ?thesis by (auto simp: digit_val_def digit_char_def)
qed

lemma digit_val_not_sep:
  "digit_val c = Some d \<Longrightarrow> c \<noteq> CHR ''_'' \<and> c \<noteq> CHR '','' \<and> c \<noteq> CHR ''-'' \<and> c \<noteq> CHR ''+'' \<and> \<not> is_space c"
  by (auto simp: digit_val_def is_space_def split: if_splits)

definition all_digits :: "string \<Rightarrow> bool" where
  "all_digits s \<longleftrightarrow> s \<noteq> [] \<and> (\<forall>c \<in> set s. digit_val c \<noteq> None)"

lemma all_digits_str_nat: "all_digits (str_nat n)"
proof (induction n rule: str_nat.induct)
  case (1 n)
  show ?case
  proof (cases "n < 10")
    case True
    then show ?thesis
      by (simp add: str_nat.simps [of n] all_digits_def digit_val_digit_char)
  next
    case False
    with 1 have "all_digits (str_nat (n div 10))" by simp
    moreover have "digit_val (digit_char (n mod 10)) \<noteq> None"
      by (simp add: digit_val_digit_char)
    ultimately show ?thesis using False
      by (auto simp: str_nat.simps [of n] all_digits_def)
  qed
qed

lemma digits_value_snoc:
  "all_digits ds \<Longrightarrow> digit_val c = Some d \<Longrightarrow>
   digits_value acc (ds @ [c]) = map_option (\<lambda>v. 10 * v + d) (digits_value acc ds)"
proof (induction acc ds rule: digits_value.induct)
  case (1 acc)
  then show ?case by (simp add: all_digits_def)
next
  case (2 acc a cs)
  from 2(3) obtain e where e: "digit_val a = Some e"
    by (auto simp: all_digits_def)
  show ?case
  proof (cases cs)
    case Nil
    with e 2(4) show ?thesis
      using digit_val_not_sep [OF 2(4)] by simp
  next
    case (Cons c' cs')
    with 2(3) obtain e' where e': "digit_val c' = Some e'"
      by (auto simp: all_digits_def)
    then have ne: "c' \<noteq> CHR ''_''" using digit_val_not_sep by blast
    have "all_digits cs" using 2(3) Cons by (auto simp: all_digits_def)
    with 2(2) [OF e Cons ne] 2(4)
    have "digits_value (10 * acc + e) (cs @ [c]) =
          map_option (\<lambda>v. 10 * v + d) (digits_value (10 * acc + e) cs)" by simp
    with e Cons ne show ?thesis by simp
  qed
qed

lemma digits_value_str_nat: "digits_value 0 (str_nat n) = Some n"
proof (induction n rule: str_nat.induct)
  case (1 n)
  show ?case
  proof (cases "n < 10")
    case True
    then show ?thesis by (simp add: str_nat.simps [of n] digit_val_digit_char)
  next
    case False
    with 1 have ih: "digits_value 0 (str_nat (n div 10)) = Some (n div 10)" by simp
    have "digits_value 0 (str_nat (n div 10) @ [digit_char (n mod 10)]) =
          map_option (\<lambda>v. 10 * v + n mod 10) (digits_value 0 (str_nat (n div 10)))"
      by (rule digits_value_snoc) (simp_all add: all_digits_str_nat digit_val_digit_char)
    with ih False show ?thesis by (simp add: str_nat.simps [of n])
  qed
qed

lemma strip_id: "s \<noteq> [] \<Longrightarrow> \<not> is_space (hd s) \<Longrightarrow> \<not> is_space (last s) \<Longrightarrow> strip s = s"
proof -
  assume s: "s \<noteq> []" and h: "\<not> is_space (hd s)" and l: "\<not> is_space (last s)"
  from s h have "dropWhile is_space s = s" by (cases s) auto
  moreover from s l have "dropWhile is_space (rev s) = rev s"
    by (cases "rev s") (auto simp: hd_rev [symmetric] simp del: hd_rev)
  ultimately show ?thesis by (simp add: strip_def)
qed

lemma all_digits_no_space: "all_digits s \<Longrightarrow> \<not> is_space (hd s) \<and> \<not> is_space (last s)"
  using digit_val_not_sep by (fastforce simp: all_digits_def)

lemma all_digits_hd: "all_digits s \<Longrightarrow> \<exists>c cs d. s = c # cs \<and> digit_val c = Some d"
  by (cases s) (auto simp: all_digits_def)

lemma py_int_str_int: "py_int (str_int i) = Inr i"
proof (cases "i < 0")
  case True
  let ?ds = "str_nat (nat (- i))"
  have ad: "all_digits ?ds" by (rule all_digits_str_nat)
  then have "?ds \<noteq> []" by (simp add: all_digits_def)
  with all_digits_no_space [OF ad] have "\<not> is_space (last (CHR ''-'' # ?ds))" by simp
  moreover have "\<not> is_space (CHR ''-'')" by (simp add: is_space_def)
  ultimately have "strip (CHR ''-'' # ?ds) = CHR ''-'' # ?ds"
    by (intro strip_id) simp_all
  with True show ?thesis
    by (simp add: py_int_def str_int_def digits_value_str_nat)
next
  case False
  let ?ds = "str_nat (nat i)"
  have ad: "all_digits ?ds" by (rule all_digits_str_nat)
  then have ne: "?ds \<noteq> []" by (simp add: all_digits_def)
  from all_digits_hd [OF ad] obtain c cs d where c: "?ds = c # cs" "digit_val c = Some d"
    by blast
  have st: "strip ?ds = ?ds"
    using ne all_digits_no_space [OF ad] by (intro strip_id) simp_all
  have "c \<noteq> CHR ''-''" "c \<noteq> CHR ''+''" using digit_val_not_sep [OF c(2)] by simp_all
  moreover have "digits_value 0 (c # cs) = Some (nat i)"
    using digits_value_str_nat [of "nat i"] c(1) by simp
  ultimately show ?thesis using False st c(1)
    by (simp add: py_int_def str_int_def)
qed

lemma str_int_no_comma: "CHR '','' \<notin> set (str_int i)"
proof -
  have "CHR '','' \<notin> set (str_nat n)" for n
    using all_digits_str_nat [of n] digit_val_not_sep
    by (fastforce simp: all_digits_def)
  then show ?thesis by (simp add: str_int_def)
qed

lemma split_comma_no_comma: "CHR '','' \<notin> set s \<Longrightarrow> split_comma s = [s]"
  by (induction s) auto

lemma split_comma_field:
  "CHR '','' \<notin> set s \<Longrightarrow> split_comma (s @ CHR '','' # t) = s # split_comma t"
  by (induction s) auto

lemma split_comma_coord_key:
  "split_comma (coord_key x y z) = [str_int x, str_int y, str_int z]"
  by (simp add: coord_key_def split_comma_field split_comma_no_comma str_int_no_comma)

lemma decode_coord_key: "decode_key (coord_key x y z) = Inr (x, y, z)"
  by (simp add: decode_key_def split_comma_coord_key py_int_str_int)

lemma coord_key_inject: "coord_key x y z = coord_key x' y' z' \<Longrightarrow> x = x' \<and> y = y' \<and> z = z'"
  by (metis decode_coord_key sum.inject(2) prod.inject)

section \<open>The platform detector: \<open>find_platforms\<close>\<close>

text \<open>
  The grid \<open>blocks\<close> is the dict of \<open>map_data['blocks']\<close>: coordinate key to
  block id. A cell is the pair \<open>(x, z)\<close>; Python's sets of cells are HOL sets.
  \<open>enqueue_neighbors\<close> is the \<open>for nx, nz in get_neighbors(x, z)\<close> loop of
  \<open>flood_fill\<close>; \<open>flood_loop\<close> is its \<open>while queue\<close> loop, which returns the
  platform together with the \<open>visited\<close> set it has updated. \<open>target_cells\<close> are the
  cells whose key \<open>"x,0,z"\<close> holds block id 24: the cells the fill may enqueue.
\<close>

type_synonym blocks = "(string, int) pydict"
type_synonym cell = "int \<times> int"

definition get_neighbors :: "int \<Rightarrow> int \<Rightarrow> cell list" where
  "get_neighbors x z = [(x + 1, z), (x - 1, z), (x, z + 1), (x, z - 1)]"

definition enqueue_neighbors :: "blocks \<Rightarrow> cell set \<Rightarrow> cell list \<Rightarrow> int \<Rightarrow> int \<Rightarrow> cell list" where
  "enqueue_neighbors blocks visited queue x z =
     fold (\<lambda>(nx, nz) q.
             if dict_get blocks (coord_key nx 0 nz) = Some 24 \<and> (nx, nz) \<notin> visited
             then q @ [(nx, nz)] else q)
          (get_neighbors x z) queue"

definition target_cells :: "blocks \<Rightarrow> cell set" where
  "target_cells blocks = {(x, z). dict_get blocks (coord_key x 0 z) = Some 24}"

lemma finite_target_cells: "finite (target_cells blocks)"
proof -
  let ?xz = "\<lambda>k. case decode_key k of Inr (x, y, z) \<Rightarrow> (x, z) | Inl e \<Rightarrow> (0, 0)"
  have "target_cells blocks \<subseteq> ?xz ` fst ` set blocks"
  proof
    fix c assume "c \<in> target_cells blocks"
    then obtain x z where c: "c = (x, z)" and "map_of blocks (coord_key x 0 z) = Some 24"
      by (auto simp: target_cells_def dict_get_def)
    from this(2) have "(coord_key x 0 z, 24) \<in> set blocks" by (rule map_of_SomeD)
    then have "coord_key x 0 z \<in> fst ` set blocks" by force
    moreover have "?xz (coord_key x 0 z) = c" by (simp add: decode_coord_key c)
    ultimately show "c \<in> ?xz ` fst ` set blocks" by (metis image_eqI)
  qed
  then show ?thesis by (rule finite_subset) simp
qed

lemma enqueue_neighbors_filter:
  "enqueue_neighbors blocks visited queue x z =
   queue @ filter (\<lambda>c. c \<in> target_cells blocks \<and> c \<notin> visited) (get_neighbors x z)"
  by (simp add: enqueue_neighbors_def get_neighbors_def target_cells_def)

function flood_loop :: "blocks \<Rightarrow> cell list \<Rightarrow> cell set \<Rightarrow> cell set \<Rightarrow> cell set \<times> cell set" where
  "flood_loop blocks [] visited platform = (platform, visited)"
| "flood_loop blocks ((x, z) # queue) visited platform =
     (if (x, z) \<in> visited then flood_loop blocks queue visited platform
      else flood_loop blocks (enqueue_neighbors blocks (insert (x, z) visited) queue x z)
             (insert (x, z) visited) (insert (x, z) platform))"
  by pat_completeness auto
termination
proof (relation "measures
    [\<lambda>(blocks, queue, visited, platform).
        card (target_cells blocks - visited) + length (filter (\<lambda>c. c \<notin> target_cells blocks) queue),
     \<lambda>(blocks, queue, visited, platform). length queue]", goal_cases)
  case 1
  show ?case by simp
next
  case (2 blocks x z queue visited platform)
  then show ?case by auto
next
  case (3 blocks x z queue visited platform)
  let ?T = "target_cells blocks"
  have fin: "finite (?T - visited)" using finite_target_cells by simp
  show ?case
  proof (cases "(x, z) \<in> ?T")
    case True
    with 3 have "(x, z) \<in> ?T - visited" by simp
    then have "card (?T - insert (x, z) visited) < card (?T - visited)"
      using fin by (metis Diff_insert card_Diff1_less)
    with True show ?thesis by (simp add: enqueue_neighbors_filter)
  next
    case False
    then have "?T - insert (x, z) visited = ?T - visited" by auto
    with False show ?thesis by (simp add: enqueue_neighbors_filter)
  qed
qed

definition flood_fill :: "blocks \<Rightarrow> cell set \<Rightarrow> int \<Rightarrow> int \<Rightarrow> cell set \<times> cell set" where
  "flood_fill blocks visited start_x start_z = flood_loop blocks [(start_x, start_z)] visited {}"

fun scan_blocks :: "blocks \<Rightarrow> string list \<Rightarrow> cell set \<Rightarrow> cell set list \<Rightarrow> py_error + cell set list" where
  "scan_blocks blocks [] visited platforms = Inr platforms"
| "scan_blocks blocks (coord # rest) visited platforms =
     (if dict_get blocks coord \<noteq> Some 24 then scan_blocks blocks rest visited platforms
      else
        (case decode_key coord of
           Inl e \<Rightarrow> Inl e
         | Inr (x, _, z) \<Rightarrow>
             if (x, z) \<in> visited then scan_blocks blocks rest visited platforms
             else
               (case flood_fill blocks visited x z of
                  (platform, visited') \<Rightarrow>
                    if card platform > 50
                    then scan_blocks blocks rest visited' (platforms @ [platform])
                    else scan_blocks blocks rest visited' platforms)))"

definition find_platforms :: "blocks \<Rightarrow> py_error + cell set list" where
  "find_platforms blocks = scan_blocks blocks (map fst blocks) {} []"

subsection \<open>Notions the detector's properties are stated with\<close>

text \<open>
  \<open>adjacent\<close> is 4-adjacency, as \<open>get_neighbors\<close> lists it. A set of cells is
  \<open>neighbors_closed\<close> when every target cell next to a member lies in \<open>V\<close>.
  \<open>platforms_ok\<close> is the invariant of the scan over the keys.
\<close>

definition adjacent :: "cell \<Rightarrow> cell \<Rightarrow> bool" where
  "adjacent c n \<longleftrightarrow> n \<in> set (get_neighbors (fst c) (snd c))"

definition neighbors_closed :: "blocks \<Rightarrow> cell set \<Rightarrow> cell set \<Rightarrow> bool" where
  "neighbors_closed blocks P V \<longleftrightarrow>
     (\<forall>c \<in> P. \<forall>n \<in> target_cells blocks. adjacent c n \<longrightarrow> n \<in> V)"

definition platforms_ok :: "cell set \<Rightarrow> cell set list \<Rightarrow> bool" where
  "platforms_ok visited ps \<longleftrightarrow>
     (\<forall>p \<in> set ps. p \<subseteq> visited \<and> 50 < card p) \<and>
     (\<forall>i j. i < j \<longrightarrow> j < length ps \<longrightarrow> ps ! i \<inter> ps ! j = {})"

text \<open>
  \<open>platform_edges P\<close> are the pairs of 4-adjacent cells of \<open>P\<close>, so that
  \<open>(a, b) \<in> (platform_edges P)\<^sup>*\<close> says that a path of adjacent members of \<open>P\<close> leads
  from \<open>a\<close> to \<open>b\<close>. \<open>reached\<close> is the invariant of the fill that started at \<open>s0\<close>.
\<close>

definition platform_edges :: "cell set \<Rightarrow> (cell \<times> cell) set" where
  "platform_edges P = {(c, n). c \<in> P \<and> n \<in> P \<and> adjacent c n}"

definition reached :: "cell \<Rightarrow> cell list \<Rightarrow> cell set \<Rightarrow> bool" where
  "reached s0 queue P \<longleftrightarrow>
     (\<forall>c \<in> set queue. c = s0 \<or> (\<exists>p \<in> P. adjacent p c)) \<and>
     (\<forall>c \<in> P. (s0, c) \<in> (platform_edges P)\<^sup>*) \<and> (P \<noteq> {} \<longrightarrow> s0 \<in> P)"

text \<open>
  The 8 by 8 square with corner \<open>(x0, z0)\<close>, and the grids that hold exactly its cells
  as block 24 at \<open>y = 0\<close>, in any order.
\<close>

definition square_cells :: "int \<Rightarrow> int \<Rightarrow> cell set" where
  "square_cells x0 z0 = {x0..x0 + 7} \<times> {z0..z0 + 7}"

definition is_square_grid :: "int \<Rightarrow> int \<Rightarrow> blocks \<Rightarrow> bool" where
  "is_square_grid x0 z0 blocks \<longleftrightarrow>
     distinct (map fst blocks) \<and>
     set blocks = (\<lambda>(x, z). (coord_key x 0 z, 24)) ` square_cells x0 z0"

text \<open>Concrete grids: a row of target cells, a square, two distant rows, and a row whose
  first key lies off the \<open>y = 0\<close> layer.\<close>

definition row :: "int \<Rightarrow> int list \<Rightarrow> blocks" where
  "row z xs = map (\<lambda>x. (coord_key x 0 z, 24)) xs"

definition square8 :: blocks where
  "square8 = concat (map (\<lambda>z. row z [0..7]) [0..7])"

definition two_rows :: blocks where
  "two_rows = row 0 [0..50] @ row 5 [0..50]"

definition off_layer_seed :: blocks where
  "off_layer_seed = (coord_key 0 5 0, 24) # row 0 [1..51]"

section \<open>The cone generator\<close>

text \<open>
  Python floats are modelled as real numbers: \<open>math.sqrt\<close>, \<open>math.sin\<close>,
  \<open>math.cos\<close> and \<open>**\<close> on a positive base are \<open>sqrt\<close>, \<open>sin\<close>, \<open>cos\<close> and
  \<open>powr\<close>, without rounding.

  The process-wide generator of \<open>random\<close> is the sequence \<open>draws\<close> of the values it
  will return, with the number \<open>pos\<close> of values already taken. \<open>random\<close> is
  \<open>random.random()\<close>; \<open>uniform a b\<close> is \<open>random.uniform(a, b)\<close>, which the library
  computes as \<open>a + (b - a) * random()\<close>; \<open>uniform_list n a b\<close> is the comprehension
  \<^verbatim>\<open>[random.uniform(a, b) for _ in range(n)]\<close>.
\<close>

record rng =
  draws :: "nat \<Rightarrow> real"
  pos :: nat

definition random :: "rng \<Rightarrow> real \<times> rng" where
  "random g = (draws g (pos g), g\<lparr>pos := Suc (pos g)\<rparr>)"

definition uniform :: "real \<Rightarrow> real \<Rightarrow> rng \<Rightarrow> real \<times> rng" where
  "uniform a b g = (case random g of (r, g') \<Rightarrow> (a + (b - a) * r, g'))"

fun uniform_list :: "nat \<Rightarrow> real \<Rightarrow> real \<Rightarrow> rng \<Rightarrow> real list \<times> rng" where
  "uniform_list 0 a b g = ([], g)"
| "uniform_list (Suc n) a b g =
     (case uniform a b g of
        (u, g1) \<Rightarrow> (case uniform_list n a b g1 of (us, g2) \<Rightarrow> (u # us, g2)))"

text \<open>
  \<open>atan2 y x\<close> is \<open>math.atan2(y, x)\<close> on finite arguments, and \<open>py_trunc\<close> is
  \<open>int\<close> on a float: truncation towards zero.
\<close>

definition atan2 :: "real \<Rightarrow> real \<Rightarrow> real" where
  "atan2 y x =
     (if 0 < x then arctan (y / x)
      else if x < 0 then (if 0 \<le> y then arctan (y / x) + pi else arctan (y / x) - pi)
      else if 0 < y then pi / 2
      else if y < 0 then - pi / 2
      else 0)"

definition py_trunc :: "real \<Rightarrow> int" where
  "py_trunc r = (if 0 \<le> r then \<lfloor>r\<rfloor> else \<lceil>r\<rceil>)"

subsection \<open>The cap layer: \<open>create_organic_platform_layer\<close>\<close>

text \<open>
  \<open>noise_points\<close> draws the eight \<open>angles\<close> and then the eight \<open>offsets\<close>.
  \<open>radius_sums\<close> is the loop of \<open>get_radius_offset\<close> with its two accumulators,
  \<open>anchor_weight\<close> the \<open>weight\<close> it computes for one anchor, and
  \<open>get_radius_offset\<close> the value returned, with its guard \<open>weights > 0\<close>.
  \<open>organic_block\<close> chooses the block id of an included cell (edge band or interior),
  \<open>organic_cell\<close> is the body of the two \<open>for\<close> loops. \<open>radius\<close> is the integer
  the caller passes, so \<open>int(max_radius)\<close> is \<open>radius + 2\<close>.
\<close>

definition noise_points :: "rng \<Rightarrow> real list \<times> real list \<times> rng" where
  "noise_points g =
     (case uniform_list 8 0 (2 * pi) g of
        (angles, g1) \<Rightarrow>
          (case uniform_list 8 0.8 1.2 g1 of (offsets, g2) \<Rightarrow> (angles, offsets, g2)))"

definition anchor_weight :: "real \<Rightarrow> real \<Rightarrow> real" where
  "anchor_weight angle noise_angle = 1 / (1 + \<bar>sin (angle - noise_angle)\<bar>)"

definition radius_sums :: "real list \<Rightarrow> real list \<Rightarrow> real \<Rightarrow> real \<times> real" where
  "radius_sums angles offsets angle =
     fold (\<lambda>(noise_angle, offset) (total', weights).
             (total' + offset * anchor_weight angle noise_angle,
              weights + anchor_weight angle noise_angle))
          (zip angles offsets) (0, 0)"

definition get_radius_offset :: "real list \<Rightarrow> real list \<Rightarrow> real \<Rightarrow> real" where
  "get_radius_offset angles offsets angle =
     (case radius_sums angles offsets angle of
        (total', weights) \<Rightarrow> if 0 < weights then total' / weights else 1)"

definition organic_block :: "int \<Rightarrow> real \<Rightarrow> real \<Rightarrow> real \<Rightarrow> rng \<Rightarrow> int \<times> rng" where
  "organic_block radius radius_offset distance angle g =
     (if real_of_int radius - 2 \<le> distance \<and> distance \<le> real_of_int radius * radius_offset then
        (let noise = sin (angle * 4) * 0.5 + cos (distance * 0.8) * 0.5 in
         if 0 < noise then (case random g of (r, g1) \<Rightarrow> (if r < 0.7 then 37 else 4, g1))
         else (24, g))
      else
        (case random g of
           (r, g1) \<Rightarrow>
             if r < 0.9 then (24, g1)
             else (case random g1 of (r', g2) \<Rightarrow> (if r' < 0.7 then 37 else 4, g2))))"

definition organic_cell ::
  "int \<Rightarrow> int \<Rightarrow> int \<Rightarrow> real list \<Rightarrow> real list \<Rightarrow> int \<Rightarrow> int \<Rightarrow> blocks \<times> rng \<Rightarrow> blocks \<times> rng" where
  "organic_cell center_x center_z radius angles offsets x z s =
     (case s of
        (layer_blocks, g) \<Rightarrow>
          (let distance = sqrt (real_of_int (x * x + z * z));
               angle = atan2 (real_of_int z) (real_of_int x);
               radius_offset = get_radius_offset angles offsets angle
           in if distance \<le> real_of_int radius * radius_offset then
                (case organic_block radius radius_offset distance angle g of
                   (block_id, g') \<Rightarrow>
                     (dict_set layer_blocks (coord_key (x + center_x) 0 (z + center_z)) block_id, g'))
              else (layer_blocks, g)))"

definition create_organic_platform_layer :: "int \<Rightarrow> int \<Rightarrow> int \<Rightarrow> rng \<Rightarrow> blocks \<times> rng" where
  "create_organic_platform_layer center_x center_z radius g =
     (let max_radius = radius + 2 in
      case noise_points g of
        (angles, offsets, g2) \<Rightarrow>
          fold (\<lambda>x. fold (organic_cell center_x center_z radius angles offsets x)
                        [- max_radius..max_radius])
               [- max_radius..max_radius] ([], g2))"

subsection \<open>The hanging layers: \<open>generate_hanging_cone\<close>\<close>

text \<open>
  \<open>current_radius\<close> is the radius of layer \<open>y\<close>. \<open>edge_skip\<close> is the test
  \<^verbatim>\<open>distance > current_radius - 2 and random.random() < 0.4\<close>, which draws only when
  its first half holds; \<open>hanging_block\<close> is the \<open>if\<close>/\<open>elif\<close>/\<open>else\<close> that
  chooses the block id; \<open>hanging_cell\<close> is the body of the loops over \<open>x\<close> and
  \<open>z\<close>, \<open>hanging_layer\<close> the body of the loop over \<open>y\<close>.
\<close>

definition current_radius :: "int \<Rightarrow> int \<Rightarrow> int \<Rightarrow> real" where
  "current_radius max_radius depth y =
     real_of_int max_radius * (1 - (real_of_int y / real_of_int depth) powr 0.7)"

definition hanging_block :: "rng \<Rightarrow> int \<times> rng" where
  "hanging_block g =
     (case random g of
        (r1, g1) \<Rightarrow>
          if r1 < 0.6 then (37, g1)
          else (case random g1 of (r2, g2) \<Rightarrow> if r2 < 0.3 then (24, g2) else (4, g2)))"

definition edge_skip :: "real \<Rightarrow> real \<Rightarrow> rng \<Rightarrow> bool \<times> rng" where
  "edge_skip radius distance g =
     (if radius - 2 < distance then (case random g of (r, g1) \<Rightarrow> (r < 0.4, g1))
      else (False, g))"

definition hanging_cell ::
  "int \<Rightarrow> int \<Rightarrow> int \<Rightarrow> real \<Rightarrow> int \<Rightarrow> int \<Rightarrow> blocks \<times> rng \<Rightarrow> blocks \<times> rng" where
  "hanging_cell center_x center_z y radius x z s =
     (case s of
        (cone_blocks, g) \<Rightarrow>
          (let distance = sqrt (real_of_int (x * x + z * z)) in
           if distance \<le> radius then
             (case edge_skip radius distance g of
                (skip, g1) \<Rightarrow>
                  if skip then (cone_blocks, g1)
                  else
                    (case hanging_block g1 of
                       (block_id, g2) \<Rightarrow>
                         (dict_set cone_blocks (coord_key (x + center_x) (- y) (z + center_z)) block_id,
                          g2)))
           else (cone_blocks, g)))"

definition hanging_layer :: "int \<Rightarrow> int \<Rightarrow> int \<Rightarrow> int \<Rightarrow> int \<Rightarrow> blocks \<times> rng \<Rightarrow> blocks \<times> rng" where
  "hanging_layer center_x center_z max_radius depth y s =
     (let radius = current_radius max_radius depth y in
      fold (\<lambda>x. fold (hanging_cell center_x center_z y radius x)
                    [- py_trunc radius..py_trunc radius])
           [- py_trunc radius..py_trunc radius] s)"

definition generate_hanging_cone :: "int \<Rightarrow> int \<Rightarrow> int \<Rightarrow> int \<Rightarrow> rng \<Rightarrow> blocks \<times> rng" where
  "generate_hanging_cone center_x center_z start_y depth g =
     (let max_radius = 15 in
      case create_organic_platform_layer center_x center_z max_radius g of
        (platform_blocks, g1) \<Rightarrow>
          fold (hanging_layer center_x center_z max_radius depth) [1..depth - 1]
               (dict_update [] platform_blocks, g1))"

section \<open>The orchestrator: \<open>main\<close>, without its file and console I/O\<close>

text \<open>
  \<open>platform_cone\<close> computes the centre of a platform (\<open>//\<close> is floor division) and
  generates its cone; \<open>cones_loop\<close> is the loop over the platforms, which updates
  \<open>all_cone_blocks\<close> with each cone in turn; \<open>merge_blocks\<close> is the final loop that
  adds the generated blocks to the grid; \<open>main_blocks\<close> maps the loaded grid to the
  grid that is saved, or to the exception that \<open>main\<close> reports instead of saving.
\<close>

definition platform_cone :: "cell set \<Rightarrow> rng \<Rightarrow> blocks \<times> rng" where
  "platform_cone platform g =
     (let center_x = sum fst platform div int (card platform);
          center_z = sum snd platform div int (card platform)
      in generate_hanging_cone center_x center_z 0 30 g)"

fun cones_loop :: "cell set list \<Rightarrow> blocks \<Rightarrow> rng \<Rightarrow> blocks \<times> rng" where
  "cones_loop [] all_cone_blocks g = (all_cone_blocks, g)"
| "cones_loop (platform # rest) all_cone_blocks g =
     (case platform_cone platform g of
        (cone_blocks, g') \<Rightarrow> cones_loop rest (dict_update all_cone_blocks cone_blocks) g')"

definition merge_blocks :: "blocks \<Rightarrow> blocks \<Rightarrow> blocks" where
  "merge_blocks all_cone_blocks blocks =
     fold (\<lambda>(coord, block_id) b. if dict_get b coord = None then dict_set b coord block_id else b)
          all_cone_blocks blocks"

definition main_blocks :: "blocks \<Rightarrow> rng \<Rightarrow> py_error + blocks" where
  "main_blocks blocks g =
     (case find_platforms blocks of
        Inl e \<Rightarrow> Inl e
      | Inr platforms \<Rightarrow>
          (case cones_loop platforms [] g of
             (all_cone_blocks, g') \<Rightarrow> Inr (merge_blocks all_cone_blocks blocks)))"

text \<open>
  \<open>generated_cones\<close> lists the cones in the order the loop generates them, and
  \<open>last_writer\<close> is the value a key has in the latest cone of a list that holds it.
\<close>

fun generated_cones :: "cell set list \<Rightarrow> rng \<Rightarrow> blocks list" where
  "generated_cones [] g = []"
| "generated_cones (platform # rest) g =
     (case platform_cone platform g of (cone_blocks, g') \<Rightarrow> cone_blocks # generated_cones rest g')"

fun last_writer :: "blocks list \<Rightarrow> string \<Rightarrow> int option" where
  "last_writer [] k = None"
| "last_writer (cone_blocks # later) k =
     (case last_writer later k of Some v \<Rightarrow> Some v | None \<Rightarrow> dict_get cone_blocks k)"

section \<open>Notions the generator's properties are stated with\<close>

text \<open>
  The choice of a hanging block as a function of two draws \<open>r1\<close> and \<open>r2\<close>: stone
  (37) if \<open>r1 < 0.6\<close>, otherwise mossy cobblestone (24) if \<open>r2 < 0.3\<close>, otherwise
  cobblestone (4).
\<close>

definition two_draw_block :: "real \<Rightarrow> real \<Rightarrow> int" where
  "two_draw_block r1 r2 = (if r1 < 0.6 then 37 else if r2 < 0.3 then 24 else 4)"

text \<open>One step of the loop of \<open>get_radius_offset\<close>, named for the proofs.\<close>

definition sums_step :: "real \<Rightarrow> real \<times> real \<Rightarrow> real \<times> real \<Rightarrow> real \<times> real" where
  "sums_step angle = (\<lambda>(noise_angle, offset) (total', weights).
             (total' + offset * anchor_weight angle noise_angle,
              weights + anchor_weight angle noise_angle))"

text \<open>
  \<open>in_cap\<close> holds of the keys the cap layer can write: a cell of the bounding square
  of half-width \<open>radius + 2\<close> that passes the test \<open>distance \<le> radius * radius_offset\<close>.
  \<open>two_draw_inv\<close> is the invariant of the hanging loops: the draws are only consumed,
  and every key off the \<open>y = 0\<close> layer holds a block chosen from two consecutive draws.
\<close>

definition in_cap :: "int \<Rightarrow> int \<Rightarrow> int \<Rightarrow> real list \<Rightarrow> real list \<Rightarrow> string \<Rightarrow> bool" where
  "in_cap cx cz radius angles offsets k \<longleftrightarrow>
     (\<exists>x z. k = coord_key (x + cx) 0 (z + cz) \<and>
            \<bar>x\<bar> \<le> radius + 2 \<and> \<bar>z\<bar> \<le> radius + 2 \<and>
            sqrt (real_of_int (x * x + z * z))
              \<le> real_of_int radius *
                  get_radius_offset angles offsets (atan2 (real_of_int z) (real_of_int x)))"

definition two_draw_inv :: "rng \<Rightarrow> blocks \<times> rng \<Rightarrow> bool" where
  "two_draw_inv g0 s \<longleftrightarrow>
     draws (snd s) = draws g0 \<and> pos g0 \<le> pos (snd s) \<and>
     (\<forall>k v. dict_get (fst s) k = Some v \<longrightarrow>
        (\<exists>X Z. k = coord_key X 0 Z) \<or>
        (\<exists>n. pos g0 \<le> n \<and> n < pos (snd s) \<and>
             v = two_draw_block (draws g0 n) (draws g0 (Suc n)) \<and>
             (0.6 \<le> draws g0 n \<longrightarrow> Suc n < pos (snd s))))"

text \<open>Two generators for concrete runs: every draw is \<open>1/2\<close>, every draw is \<open>0.99\<close>.\<close>

definition half_draws :: rng where
  "half_draws = \<lparr>draws = (\<lambda>n. 1 / 2), pos = 0\<rparr>"


definition high_draws :: rng where
  "high_draws = \<lparr>draws = (\<lambda>n. 99 / 100), pos = 0\<rparr>"

text \<open>
  A third one, for a cell of the edge band: the draw for the erosion test is \<open>0.5\<close>,
  the next two are \<open>0.7\<close> and \<open>0.1\<close>.
\<close>

definition sample_draws :: rng where
  "sample_draws = \<lparr>draws = (\<lambda>n. if n = 0 then 1 / 2 else if n = 1 then 7 / 10 else 1 / 10), pos = 0\<rparr>"

section \<open>Grid addressing is lossless\<close>

text \<open>
  Claim C4. For all integers \<open>x\<close>, \<open>y\<close>, \<open>z\<close>, zero and negative ones included,
  decoding the comma-joined key \<open>"x,y,z"\<close> gives back exactly \<open>(x, y, z)\<close> and raises
  nothing, and two triples with the same key are the same triple: on the keys the
  program writes, encoding and decoding are inverse to each other.
\<close>

theorem codec_round_trip:
  "decode_key (coord_key x y z) = Inr (x, y, z) \<and>
   (coord_key x y z = coord_key x' y' z') = ((x, y, z) = (x', y', z'))"
  using decode_coord_key coord_key_inject by auto

section \<open>Properties of the detector\<close>

lemma flood_loop_new:
  "flood_loop blocks queue visited platform = (platform', visited') \<Longrightarrow>
   \<exists>N. finite N \<and> N \<inter> visited = {} \<and> visited' = visited \<union> N \<and> platform' = platform \<union> N"
proof (induction blocks queue visited platform rule: flood_loop.induct)
  case (1 blocks visited platform)
  then show ?case by auto
next
  case (2 blocks x z queue visited platform)
  show ?case
  proof (cases "(x, z) \<in> visited")
    case True
    with 2 show ?thesis by simp
  next
    case False
    with 2 obtain N where N: "finite N" "N \<inter> insert (x, z) visited = {}"
      "visited' = insert (x, z) visited \<union> N" "platform' = insert (x, z) platform \<union> N"
      by auto
    let ?N = "insert (x, z) N"
    from N False have "finite ?N \<and> ?N \<inter> visited = {} \<and> visited' = visited \<union> ?N \<and>
      platform' = platform \<union> ?N" by auto
    then show ?thesis by blast
  qed
qed

lemma flood_fill_new:
  assumes "flood_fill blocks visited x z = (platform, visited')"
  shows "finite platform" "platform \<inter> visited = {}" "visited' = visited \<union> platform"
  using flood_loop_new [OF assms [unfolded flood_fill_def]] by auto

lemma platforms_ok_mono: "platforms_ok visited ps \<Longrightarrow> visited \<subseteq> visited' \<Longrightarrow> platforms_ok visited' ps"
  unfolding platforms_ok_def by blast

lemma platforms_ok_snoc:
  assumes ok: "platforms_ok visited ps" and new: "p \<inter> visited = {}" and big: "50 < card p"
  shows "platforms_ok (visited \<union> p) (ps @ [p])"
proof -
  have disj: "ps ! i \<inter> (ps @ [p]) ! j = {}" if "i < j" "j < length (ps @ [p])" for i j
  proof (cases "j < length ps")
    case True
    with ok that show ?thesis by (simp add: platforms_ok_def nth_append)
  next
    case False
    with that have j: "j = length ps" and i: "i < length ps" by simp_all
    from i ok have "ps ! i \<subseteq> visited" by (simp add: platforms_ok_def)
    with new j show ?thesis by auto
  qed
  have "(ps @ [p]) ! i \<inter> (ps @ [p]) ! j = {}" if "i < j" "j < length (ps @ [p])" for i j
    using disj [OF that] that by (simp add: nth_append)
  moreover have "\<forall>q \<in> set (ps @ [p]). q \<subseteq> visited \<union> p \<and> 50 < card q"
    using ok big by (auto simp: platforms_ok_def)
  ultimately show ?thesis unfolding platforms_ok_def by blast
qed

lemma scan_blocks_ok:
  "scan_blocks blocks keys visited ps = Inr ps' \<Longrightarrow> platforms_ok visited ps \<Longrightarrow>
   \<exists>visited'. platforms_ok visited' ps'"
proof (induction blocks keys visited ps rule: scan_blocks.induct)
  case (1 blocks visited platforms)
  then show ?case by auto
next
  case (2 blocks coord rest visited platforms)
  show ?case
  proof (cases "dict_get blocks coord \<noteq> Some 24")
    case True
    with 2 show ?thesis by simp
  next
    case target: False
    with "2.prems"(1) obtain x y z where dec: "decode_key coord = Inr (x, y, z)"
      by (cases "decode_key coord") auto
    show ?thesis
    proof (cases "(x, z) \<in> visited")
      case True
      with "2.IH"(2) [OF target dec refl refl True] "2.prems" target dec show ?thesis by simp
    next
      case False
      obtain p v where ff: "flood_fill blocks visited x z = (p, v)" by force
      note new = flood_fill_new [OF ff]
      show ?thesis
      proof (cases "50 < card p")
        case True
        have "platforms_ok v (platforms @ [p])"
          using platforms_ok_snoc [OF "2.prems"(2) new(2) True] new(3) by simp
        moreover have "scan_blocks blocks rest v (platforms @ [p]) = Inr ps'"
          using "2.prems"(1) target dec False ff True by simp
        ultimately show ?thesis
          using "2.IH"(3) [OF target dec refl refl False ff [symmetric] True] by blast
      next
        case small: False
        have "platforms_ok v platforms"
          using platforms_ok_mono [OF "2.prems"(2)] new(3) by simp
        moreover have "scan_blocks blocks rest v platforms = Inr ps'"
          using "2.prems"(1) target dec False ff small by simp
        ultimately show ?thesis
          using "2.IH"(4) [OF target dec refl refl False ff [symmetric] small] by blast
      qed
    qed
  qed
qed

text \<open>
  Claim C5. For every grid on which the detector returns, the platforms it returns are
  pairwise disjoint as sets of \<open>(x, z)\<close> pairs, and every one of them has more than
  50 cells.
\<close>

theorem platforms_disjoint_and_large:
  assumes "find_platforms blocks = Inr ps"
  shows "(\<forall>i j. i < j \<longrightarrow> j < length ps \<longrightarrow> ps ! i \<inter> ps ! j = {}) \<and> (\<forall>p \<in> set ps. 50 < card p)"
proof -
  have "platforms_ok {} []" by (simp add: platforms_ok_def)
  with assms obtain v where "platforms_ok v ps"
    unfolding find_platforms_def using scan_blocks_ok by blast
  then show ?thesis unfolding platforms_ok_def by blast
qed

lemma flood_loop_sound:
  "flood_loop blocks queue visited platform = (platform', visited') \<Longrightarrow>
   platform' \<subseteq> platform \<union> set queue \<union> target_cells blocks"
proof (induction blocks queue visited platform rule: flood_loop.induct)
  case (1 blocks visited platform)
  then show ?case by auto
next
  case (2 blocks x z queue visited platform)
  show ?case
  proof (cases "(x, z) \<in> visited")
    case True
    with 2 show ?thesis by auto
  next
    case False
    with 2 have "platform' \<subseteq> insert (x, z) platform \<union>
        set (enqueue_neighbors blocks (insert (x, z) visited) queue x z) \<union> target_cells blocks"
      by simp
    then show ?thesis by (auto simp: enqueue_neighbors_filter)
  qed
qed

lemma flood_loop_queue_visited:
  "flood_loop blocks queue visited platform = (platform', visited') \<Longrightarrow>
   set queue \<union> visited \<subseteq> visited'"
proof (induction blocks queue visited platform rule: flood_loop.induct)
  case (1 blocks visited platform)
  then show ?case by auto
next
  case (2 blocks x z queue visited platform)
  show ?case
  proof (cases "(x, z) \<in> visited")
    case True
    with 2 show ?thesis by auto
  next
    case False
    with 2 have "set (enqueue_neighbors blocks (insert (x, z) visited) queue x z) \<union>
        insert (x, z) visited \<subseteq> visited'"
      by simp
    then show ?thesis by (auto simp: enqueue_neighbors_filter)
  qed
qed

lemma flood_loop_closed:
  "flood_loop blocks queue visited platform = (platform', visited') \<Longrightarrow>
   neighbors_closed blocks platform (visited \<union> set queue) \<Longrightarrow>
   neighbors_closed blocks platform' visited'"
proof (induction blocks queue visited platform rule: flood_loop.induct)
  case (1 blocks visited platform)
  then show ?case by auto
next
  case (2 blocks x z queue visited platform)
  show ?case
  proof (cases "(x, z) \<in> visited")
    case True
    have "visited \<union> set ((x, z) # queue) = visited \<union> set queue" using True by auto
    with 2 True show ?thesis by simp
  next
    case False
    let ?V = "insert (x, z) visited"
    let ?Q = "enqueue_neighbors blocks ?V queue x z"
    have "neighbors_closed blocks (insert (x, z) platform) (?V \<union> set ?Q)"
      unfolding neighbors_closed_def
    proof (intro ballI impI)
      fix c n
      assume c: "c \<in> insert (x, z) platform" and n: "n \<in> target_cells blocks" and a: "adjacent c n"
      show "n \<in> ?V \<union> set ?Q"
      proof (cases "c = (x, z)")
        case True
        with a have "n \<in> set (get_neighbors x z)" by (simp add: adjacent_def)
        with n show ?thesis by (auto simp: enqueue_neighbors_filter)
      next
        case False
        with c have "c \<in> platform" by simp
        with "2.prems"(2) n a have "n \<in> visited \<union> set ((x, z) # queue)"
          unfolding neighbors_closed_def by blast
        then show ?thesis by (auto simp: enqueue_neighbors_filter)
      qed
    qed
    with 2 False show ?thesis by simp
  qed
qed

lemma flood_fill_component:
  assumes ff: "flood_fill blocks {} x z = (platform, visited')"
  shows "visited' = platform" "(x, z) \<in> platform"
    "platform \<subseteq> insert (x, z) (target_cells blocks)"
    "neighbors_closed blocks platform platform"
proof -
  note fl = ff [unfolded flood_fill_def]
  show v: "visited' = platform" using flood_fill_new(3) [OF ff] by simp
  show "(x, z) \<in> platform" using flood_loop_queue_visited [OF fl] v by simp
  show "platform \<subseteq> insert (x, z) (target_cells blocks)"
    using flood_loop_sound [OF fl] by auto
  have "neighbors_closed blocks {} ({} \<union> set [(x, z)])" by (simp add: neighbors_closed_def)
  from flood_loop_closed [OF fl this] v show "neighbors_closed blocks platform platform" by simp
qed

lemma scan_blocks_all_visited:
  "(\<And>k. k \<in> set keys \<Longrightarrow> dict_get blocks k = Some 24 \<Longrightarrow>
       \<exists>x y z. decode_key k = Inr (x, y, z) \<and> (x, z) \<in> visited) \<Longrightarrow>
   scan_blocks blocks keys visited ps = Inr ps"
proof (induction keys)
  case Nil
  show ?case by simp
next
  case (Cons k keys)
  then have rest: "scan_blocks blocks keys visited ps = Inr ps" by simp
  show ?case
  proof (cases "dict_get blocks k = Some 24")
    case True
    with Cons.prems [of k] obtain x y z where "decode_key k = Inr (x, y, z)" "(x, z) \<in> visited"
      by auto
    with True rest show ?thesis by simp
  next
    case False
    with rest show ?thesis by simp
  qed
qed

lemma segment_closed:
  fixes lo hi i :: int
  assumes i: "lo \<le> i" "i \<le> hi" "Q i"
    and up: "\<And>j. lo \<le> j \<Longrightarrow> j < hi \<Longrightarrow> Q j \<Longrightarrow> Q (j + 1)"
    and down: "\<And>j. lo < j \<Longrightarrow> j \<le> hi \<Longrightarrow> Q j \<Longrightarrow> Q (j - 1)"
    and j: "lo \<le> j" "j \<le> hi"
  shows "Q j"
proof (cases "i \<le> j")
  case True
  then have "j \<le> hi \<longrightarrow> Q j"
  proof (induction j rule: int_ge_induct)
    case base
    from i show ?case by simp
  next
    case (step k)
    with i up [of k] show ?case by auto
  qed
  with j show ?thesis by simp
next
  case False
  then have "j \<le> i" by simp
  then have "lo \<le> j \<longrightarrow> Q j"
  proof (induction j rule: int_le_induct)
    case base
    from i show ?case by simp
  next
    case (step k)
    with i down [of k] show ?case by auto
  qed
  with j show ?thesis by simp
qed

lemma rectangle_closed:
  fixes P :: "cell set"
  assumes start: "(x1, z1) \<in> P" "(x1, z1) \<in> {xl..xh} \<times> {zl..zh}"
    and closed: "\<And>c n. c \<in> P \<Longrightarrow> n \<in> {xl..xh} \<times> {zl..zh} \<Longrightarrow> adjacent c n \<Longrightarrow> n \<in> P"
  shows "{xl..xh} \<times> {zl..zh} \<subseteq> P"
proof
  fix c assume c: "c \<in> {xl..xh} \<times> {zl..zh}"
  obtain a b where ab: "c = (a, b)" by (cases c)
  with c have a: "xl \<le> a" "a \<le> xh" and b: "zl \<le> b" "b \<le> zh" by auto
  have x: "(a, z1) \<in> P"
  proof (rule segment_closed [where Q = "\<lambda>j. (j, z1) \<in> P" and lo = xl and hi = xh and i = x1])
    show "xl \<le> x1" "x1 \<le> xh" "(x1, z1) \<in> P" "xl \<le> a" "a \<le> xh" using start a by auto
  next
    fix j assume "xl \<le> j" "j < xh" "(j, z1) \<in> P"
    then show "(j + 1, z1) \<in> P"
      using closed [of "(j, z1)" "(j + 1, z1)"] start by (auto simp: adjacent_def get_neighbors_def)
  next
    fix j assume "xl < j" "j \<le> xh" "(j, z1) \<in> P"
    then show "(j - 1, z1) \<in> P"
      using closed [of "(j, z1)" "(j - 1, z1)"] start by (auto simp: adjacent_def get_neighbors_def)
  qed
  have "(a, b) \<in> P"
  proof (rule segment_closed [where Q = "\<lambda>j. (a, j) \<in> P" and lo = zl and hi = zh and i = z1])
    show "zl \<le> z1" "z1 \<le> zh" "(a, z1) \<in> P" "zl \<le> b" "b \<le> zh" using start b x by auto
  next
    fix j assume "zl \<le> j" "j < zh" "(a, j) \<in> P"
    then show "(a, j + 1) \<in> P"
      using closed [of "(a, j)" "(a, j + 1)"] a by (auto simp: adjacent_def get_neighbors_def)
  next
    fix j assume "zl < j" "j \<le> zh" "(a, j) \<in> P"
    then show "(a, j - 1) \<in> P"
      using closed [of "(a, j)" "(a, j - 1)"] a by (auto simp: adjacent_def get_neighbors_def)
  qed
  with ab show "c \<in> P" by simp
qed

lemma card_square_cells: "card (square_cells x0 z0) = 64"
  by (simp add: square_cells_def card_cartesian_product)

lemma square_grid_get:
  assumes "is_square_grid x0 z0 blocks"
  shows "dict_get blocks k = Some v \<longleftrightarrow>
         v = 24 \<and> (\<exists>x z. (x, z) \<in> square_cells x0 z0 \<and> k = coord_key x 0 z)"
proof -
  from assms have d: "distinct (map fst blocks)"
    and s: "set blocks = (\<lambda>(x, z). (coord_key x 0 z, 24)) ` square_cells x0 z0"
    by (simp_all add: is_square_grid_def)
  have "dict_get blocks k = Some v \<longleftrightarrow> (k, v) \<in> set blocks"
    using d by (simp add: dict_get_def)
  also have "\<dots> \<longleftrightarrow> v = 24 \<and> (\<exists>x z. (x, z) \<in> square_cells x0 z0 \<and> k = coord_key x 0 z)"
    unfolding s by auto
  finally show ?thesis .
qed

lemma square_grid_targets:
  assumes "is_square_grid x0 z0 blocks"
  shows "target_cells blocks = square_cells x0 z0"
  unfolding target_cells_def square_grid_get [OF assms]
  using coord_key_inject by blast

lemma square_grid_platforms:
  assumes sq: "is_square_grid x0 z0 blocks"
  shows "find_platforms blocks = Inr [square_cells x0 z0]"
proof -
  let ?S = "square_cells x0 z0"
  have T: "target_cells blocks = ?S" by (rule square_grid_targets [OF sq])
  have keys: "\<exists>x z. (x, z) \<in> ?S \<and> k = coord_key x 0 z \<and> dict_get blocks k = Some 24"
    if "k \<in> set (map fst blocks)" for k
  proof -
    from that obtain v where "(k, v) \<in> set blocks" by auto
    with sq have "dict_get blocks k = Some v" by (simp add: is_square_grid_def dict_get_def)
    with square_grid_get [OF sq] show ?thesis by blast
  qed
  have "(x0, z0) \<in> ?S" by (simp add: square_cells_def)
  with sq have "blocks \<noteq> []" by (auto simp: is_square_grid_def)
  then obtain k1 rest where ks: "map fst blocks = k1 # rest" by (cases blocks) auto
  then have "k1 \<in> set (map fst blocks)" by simp
  from keys [OF this] obtain x1 z1 where k1: "(x1, z1) \<in> ?S" "k1 = coord_key x1 0 z1"
    "dict_get blocks k1 = Some 24" by blast
  obtain P V where ff: "flood_fill blocks {} x1 z1 = (P, V)" by force
  note comp = flood_fill_component [OF ff]
  have "P \<subseteq> ?S" using comp(3) k1(1) T by auto
  moreover have "?S \<subseteq> P"
    unfolding square_cells_def
  proof (rule rectangle_closed [of x1 z1])
    show "(x1, z1) \<in> P" by (rule comp(2))
    show "(x1, z1) \<in> {x0..x0 + 7} \<times> {z0..z0 + 7}" using k1(1) by (simp add: square_cells_def)
  next
    fix c n assume "c \<in> P" "n \<in> {x0..x0 + 7} \<times> {z0..z0 + 7}" "adjacent c n"
    with comp(4) T show "n \<in> P" unfolding neighbors_closed_def square_cells_def by blast
  qed
  ultimately have P: "P = ?S" by auto
  have "scan_blocks blocks rest ?S [?S] = Inr [?S]"
  proof (rule scan_blocks_all_visited)
    fix k assume "k \<in> set rest"
    with ks have "k \<in> set (map fst blocks)" by simp
    from keys [OF this] show "\<exists>x y z. decode_key k = Inr (x, y, z) \<and> (x, z) \<in> ?S"
      using decode_coord_key by blast
  qed
  with ks k1 ff comp(1) P have "find_platforms blocks = Inr [?S]"
    by (simp add: find_platforms_def decode_coord_key card_square_cells)
  then show ?thesis .
qed

text \<open>
  Claim C6. A grid whose only entries are the 64 cells of one contiguous 8 by 8 square
  of block id 24 at \<open>y = 0\<close>, wherever the square lies and in whatever order the dict
  holds its keys, gives exactly one platform, the square itself, of size 64.
\<close>

theorem square_grid_one_platform:
  assumes "is_square_grid x0 z0 blocks"
  shows "find_platforms blocks = Inr [square_cells x0 z0] \<and> card (square_cells x0 z0) = 64"
  using assms by (simp add: square_grid_platforms card_square_cells)

lemma square8_is_square_grid: "is_square_grid 0 0 square8"
  by code_simp

lemma two_rows_platforms: "find_platforms two_rows = Inr [{0..50} \<times> {0}, {0..50} \<times> {5}]"
  by code_simp

lemma off_layer_seed_platforms: "find_platforms off_layer_seed = Inr [{0..51} \<times> {0}]"
  by code_simp

theorem platforms_disjoint_and_large_witness:
  "find_platforms two_rows = Inr [{0..50} \<times> {0}, {0..50} \<times> {5}] \<and>
   ({0..50} \<times> {0} :: cell set) \<inter> {0..50} \<times> {5} = {} \<and>
   50 < card ({0..50} \<times> {0} :: cell set) \<and> 50 < card ({0..50} \<times> {5} :: cell set)"
proof -
  let ?ps = "[{0..50} \<times> {0}, {0..50} \<times> {5}] :: cell set list"
  note r = platforms_disjoint_and_large [OF two_rows_platforms]
  from r have "(0 :: nat) < 1 \<longrightarrow> 1 < length ?ps \<longrightarrow> ?ps ! 0 \<inter> ?ps ! 1 = {}"
    by blast
  moreover from r have "\<forall>p \<in> set ?ps. 50 < card p" by blast
  ultimately show ?thesis using two_rows_platforms by simp
qed

theorem square_grid_one_platform_witness:
  "is_square_grid 0 0 square8 \<and> find_platforms square8 = Inr [square_cells 0 0] \<and>
   card (square_cells 0 0) = 64"
  using square_grid_one_platform [OF square8_is_square_grid] square8_is_square_grid by simp

subsection \<open>Members and connectivity of a platform\<close>

text \<open>
  Every platform is connected by paths of adjacent members, and all its members but the
  seed of its fill are target cells. When the grid holds block 24 only under keys
  \<open>"x,0,z"\<close>, the seed is a target cell too.
\<close>

lemma adjacent_sym: "adjacent c n \<Longrightarrow> adjacent n c"
  by (cases c; cases n) (auto simp: adjacent_def get_neighbors_def)

lemma platform_edges_mono: "P \<subseteq> Q \<Longrightarrow> (platform_edges P)\<^sup>* \<subseteq> (platform_edges Q)\<^sup>*"
  by (rule rtrancl_mono) (auto simp: platform_edges_def)

lemma platform_edges_sym: "(a, b) \<in> (platform_edges P)\<^sup>* \<Longrightarrow> (b, a) \<in> (platform_edges P)\<^sup>*"
proof (induction rule: rtrancl_induct)
  case base
  show ?case by simp
next
  case (step y z)
  then have "(z, y) \<in> platform_edges P" by (auto simp: platform_edges_def adjacent_sym)
  then show ?case using step.IH by (rule converse_rtrancl_into_rtrancl)
qed

lemma flood_loop_reached:
  "flood_loop blocks queue visited platform = (platform', visited') \<Longrightarrow>
   reached s0 queue platform \<Longrightarrow> reached s0 [] platform'"
proof (induction blocks queue visited platform rule: flood_loop.induct)
  case (1 blocks visited platform)
  then show ?case by simp
next
  case (2 blocks x z queue visited platform)
  note inv = "2.prems"(2)
  show ?case
  proof (cases "(x, z) \<in> visited")
    case True
    from inv have "reached s0 queue platform" by (simp add: reached_def)
    with 2 True show ?thesis by simp
  next
    case False
    let ?P = "insert (x, z) platform"
    let ?Q = "enqueue_neighbors blocks (insert (x, z) visited) queue x z"
    have sub: "(platform_edges platform)\<^sup>* \<subseteq> (platform_edges ?P)\<^sup>*"
      by (rule platform_edges_mono) auto
    have s0P: "s0 \<in> ?P" and path: "(s0, (x, z)) \<in> (platform_edges ?P)\<^sup>*"
    proof -
      from inv have "(x, z) = s0 \<or> (\<exists>p \<in> platform. adjacent p (x, z))"
        by (simp add: reached_def)
      then show "s0 \<in> ?P"
      proof
        assume "(x, z) = s0" then show ?thesis by simp
      next
        assume "\<exists>p \<in> platform. adjacent p (x, z)"
        then have "platform \<noteq> {}" by auto
        with inv show ?thesis by (simp add: reached_def)
      qed
      from \<open>(x, z) = s0 \<or> (\<exists>p \<in> platform. adjacent p (x, z))\<close>
      show "(s0, (x, z)) \<in> (platform_edges ?P)\<^sup>*"
      proof
        assume "(x, z) = s0" then show ?thesis by simp
      next
        assume "\<exists>p \<in> platform. adjacent p (x, z)"
        then obtain p where p: "p \<in> platform" "adjacent p (x, z)" by blast
        with inv have "(s0, p) \<in> (platform_edges platform)\<^sup>*" by (simp add: reached_def)
        with sub have "(s0, p) \<in> (platform_edges ?P)\<^sup>*" by blast
        moreover from p have "(p, (x, z)) \<in> platform_edges ?P" by (simp add: platform_edges_def)
        ultimately show ?thesis by (rule rtrancl_into_rtrancl)
      qed
    qed
    have "reached s0 ?Q ?P"
      unfolding reached_def
    proof (intro conjI ballI impI)
      fix c assume "c \<in> set ?Q"
      then have "c \<in> set queue \<or> c \<in> set (get_neighbors x z)"
        by (auto simp: enqueue_neighbors_filter)
      then show "c = s0 \<or> (\<exists>p \<in> ?P. adjacent p c)"
      proof
        assume "c \<in> set queue"
        with inv show ?thesis by (auto simp: reached_def)
      next
        assume "c \<in> set (get_neighbors x z)"
        then have "adjacent (x, z) c" by (simp add: adjacent_def)
        then show ?thesis by blast
      qed
    next
      fix c assume "c \<in> ?P"
      then show "(s0, c) \<in> (platform_edges ?P)\<^sup>*"
      proof
        assume "c = (x, z)" with path show ?thesis by simp
      next
        assume "c \<in> platform"
        with inv have "(s0, c) \<in> (platform_edges platform)\<^sup>*" by (simp add: reached_def)
        with sub show ?thesis by blast
      qed
    next
      show "s0 \<in> ?P" by (rule s0P)
    qed
    with 2 False show ?thesis by simp
  qed
qed

lemma flood_fill_connected:
  assumes ff: "flood_fill blocks visited x z = (platform, visited')"
    and a: "a \<in> platform" and b: "b \<in> platform"
  shows "(a, b) \<in> (platform_edges platform)\<^sup>*"
proof -
  have "reached (x, z) [(x, z)] {}" by (simp add: reached_def)
  from flood_loop_reached [OF ff [unfolded flood_fill_def] this]
  have r: "\<forall>c \<in> platform. ((x, z), c) \<in> (platform_edges platform)\<^sup>*" by (simp add: reached_def)
  with a have "(a, (x, z)) \<in> (platform_edges platform)\<^sup>*" by (simp add: platform_edges_sym)
  moreover from r b have "((x, z), b) \<in> (platform_edges platform)\<^sup>*" by simp
  ultimately show ?thesis by (rule rtrancl_trans)
qed

lemma flood_fill_members:
  assumes ff: "flood_fill blocks visited x z = (platform, visited')"
  shows "platform \<subseteq> insert (x, z) (target_cells blocks)"
  using flood_loop_sound [OF ff [unfolded flood_fill_def]] by auto

lemma scan_blocks_platforms:
  assumes "scan_blocks blocks keys visited ps = Inr ps'" and "\<forall>p \<in> set ps. Q p"
    and "\<forall>coord x y z v p v'. coord \<in> set keys \<longrightarrow> dict_get blocks coord = Some 24 \<longrightarrow>
           decode_key coord = Inr (x, y, z) \<longrightarrow> flood_fill blocks v x z = (p, v') \<longrightarrow> Q p"
  shows "\<forall>p \<in> set ps'. Q p"
  using assms
proof (induction blocks keys visited ps rule: scan_blocks.induct)
  case (1 blocks visited platforms)
  then show ?case by simp
next
  case (2 blocks coord rest visited platforms)
  have fill: "\<forall>coord' x y z v p v'. coord' \<in> set rest \<longrightarrow> dict_get blocks coord' = Some 24 \<longrightarrow>
           decode_key coord' = Inr (x, y, z) \<longrightarrow> flood_fill blocks v x z = (p, v') \<longrightarrow> Q p"
    using "2.prems"(3) by simp
  show ?case
  proof (cases "dict_get blocks coord \<noteq> Some 24")
    case True
    with "2.prems" have "scan_blocks blocks rest visited platforms = Inr ps'" by simp
    from "2.IH"(1) [OF True this "2.prems"(2) fill] show ?thesis .
  next
    case target: False
    with "2.prems"(1) obtain x y z where dec: "decode_key coord = Inr (x, y, z)"
      by (cases "decode_key coord") auto
    show ?thesis
    proof (cases "(x, z) \<in> visited")
      case True
      with "2.prems"(1) target dec have "scan_blocks blocks rest visited platforms = Inr ps'"
        by simp
      from "2.IH"(2) [OF target dec refl refl True this "2.prems"(2) fill] show ?thesis .
    next
      case False
      obtain p v where ff: "flood_fill blocks visited x z = (p, v)" by force
      from target have t: "dict_get blocks coord = Some 24" by simp
      have Qp: "Q p" using "2.prems"(3) t dec ff by (meson list.set_intros(1))
      show ?thesis
      proof (cases "50 < card p")
        case True
        with "2.prems"(1) target dec False ff
        have sc: "scan_blocks blocks rest v (platforms @ [p]) = Inr ps'" by simp
        have all: "\<forall>q \<in> set (platforms @ [p]). Q q" using "2.prems"(2) Qp by simp
        from "2.IH"(3) [OF target dec refl refl False ff [symmetric] True sc all fill]
        show ?thesis .
      next
        case small: False
        with "2.prems"(1) target dec False ff
        have sc: "scan_blocks blocks rest v platforms = Inr ps'" by simp
        from "2.IH"(4) [OF target dec refl refl False ff [symmetric] small sc "2.prems"(2) fill]
        show ?thesis .
      qed
    qed
  qed
qed

lemma platforms_connected:
  assumes "find_platforms blocks = Inr ps" and "p \<in> set ps" and "a \<in> p" and "b \<in> p"
  shows "(a, b) \<in> (platform_edges p)\<^sup>*"
proof -
  let ?Q = "\<lambda>p. \<forall>a \<in> p. \<forall>b \<in> p. (a, b) \<in> (platform_edges p)\<^sup>*"
  have "\<forall>p \<in> set ps. ?Q p"
  proof (rule scan_blocks_platforms [where Q = ?Q, OF assms(1) [unfolded find_platforms_def]])
    show "\<forall>p \<in> set []. ?Q p" by simp
    show "\<forall>coord x y z v p v'. coord \<in> set (map fst blocks) \<longrightarrow>
        dict_get blocks coord = Some 24 \<longrightarrow> decode_key coord = Inr (x, y, z) \<longrightarrow>
        flood_fill blocks v x z = (p, v') \<longrightarrow> ?Q p"
      using flood_fill_connected by blast
  qed
  with assms(2-4) show ?thesis by blast
qed

lemma platforms_on_layer:
  assumes fp: "find_platforms blocks = Inr ps" and p: "p \<in> set ps"
    and layer: "\<And>k. k \<in> fst ` set blocks \<Longrightarrow> dict_get blocks k = Some 24 \<Longrightarrow>
                  \<exists>x z. k = coord_key x 0 z"
  shows "p \<subseteq> target_cells blocks"
proof -
  let ?Q = "\<lambda>p. p \<subseteq> target_cells blocks"
  have "\<forall>p \<in> set ps. ?Q p"
  proof (rule scan_blocks_platforms [where Q = ?Q, OF fp [unfolded find_platforms_def]])
    show "\<forall>p \<in> set []. ?Q p" by simp
    show "\<forall>coord x y z v q v'. coord \<in> set (map fst blocks) \<longrightarrow>
        dict_get blocks coord = Some 24 \<longrightarrow> decode_key coord = Inr (x, y, z) \<longrightarrow>
        flood_fill blocks v x z = (q, v') \<longrightarrow> ?Q q"
    proof (intro allI impI)
      fix coord x y z v q v'
      assume k: "coord \<in> set (map fst blocks)" and t: "dict_get blocks coord = Some 24"
        and dec: "decode_key coord = Inr (x, y, z)" and ff: "flood_fill blocks v x z = (q, v')"
      from layer [of coord] k t obtain x' z' where "coord = coord_key x' 0 z'" by auto
      with dec t have "(x, z) \<in> target_cells blocks"
        by (simp add: decode_coord_key target_cells_def)
      with flood_fill_members [OF ff] show "?Q q" by auto
    qed
  qed
  with p show ?thesis by blast
qed

text \<open>
  Claim C1, at a grid that holds block 24 off the \<open>y = 0\<close> layer. The grid holds block 24 at \<open>(0, 5, 0)\<close>
  and at \<open>(1, 0, 0)\<close> to \<open>(51, 0, 0)\<close>. The scan drops the \<open>y\<close> of the first key and
  seeds a fill at \<open>(0, 0)\<close>: the platform returned has 52 cells and contains
  \<open>(0, 0)\<close>, although the grid has no entry at \<open>"0,0,0"\<close>.
\<close>

theorem off_layer_seed_in_platform:
  "find_platforms off_layer_seed = Inr [{0..51} \<times> {0}] \<and>
   (0, 0) \<in> ({0..51} \<times> {0} :: cell set) \<and>
   card ({0..51} \<times> {0} :: cell set) = 52 \<and>
   dict_get off_layer_seed (coord_key 0 0 0) = None \<and>
   dict_get off_layer_seed (coord_key 0 5 0) = Some 24"
proof -
  have "dict_get off_layer_seed (coord_key 0 0 0) = None" by code_simp
  moreover have "dict_get off_layer_seed (coord_key 0 5 0) = Some 24" by code_simp
  ultimately show ?thesis
    using off_layer_seed_platforms by (simp add: card_cartesian_product)
qed

section \<open>Properties of the generator and of the merge\<close>

subsection \<open>Dict operations\<close>

lemma dict_get_dict_set: "dict_get (dict_set d k v) k' = (if k' = k then Some v else dict_get d k')"
proof (cases "dict_get d k = None")
  case True
  then show ?thesis by (auto simp: dict_set_def dict_get_def map_add_def split: option.splits)
next
  case False
  have "map_of (map (\<lambda>(a, b). if a = k then (a, v) else (a, b)) d) k' =
        (if k' = k then (case map_of d k of None \<Rightarrow> None | Some _ \<Rightarrow> Some v) else map_of d k')"
    by (induction d) auto
  with False show ?thesis by (auto simp: dict_set_def dict_get_def)
qed

lemma dict_get_None_iff: "dict_get d k = None \<longleftrightarrow> k \<notin> fst ` set d"
  by (simp add: dict_get_def map_of_eq_None_iff)

lemma distinct_dict_set: "distinct (map fst d) \<Longrightarrow> distinct (map fst (dict_set d k v))"
proof (cases "dict_get d k = None")
  case True
  assume "distinct (map fst d)"
  with True show ?thesis by (simp add: dict_set_def dict_get_None_iff)
next
  case False
  assume d: "distinct (map fst d)"
  have "fst \<circ> (\<lambda>(a, b). if a = k then (a, v) else (a, b)) = fst"
    by (rule ext) (simp split: prod.splits)
  with False d show ?thesis by (auto simp: dict_set_def)
qed

lemma distinct_dict_update: "distinct (map fst d) \<Longrightarrow> distinct (map fst (dict_update d e))"
proof -
  have "distinct (map fst d) \<Longrightarrow> distinct (map fst (fold (\<lambda>(k, v) acc. dict_set acc k v) e d))"
    by (induction e arbitrary: d) (auto simp: distinct_dict_set)
  then show "distinct (map fst d) \<Longrightarrow> ?thesis" by (simp add: dict_update_def)
qed

lemma dict_get_dict_update:
  "distinct (map fst e) \<Longrightarrow>
   dict_get (dict_update d e) k = (case dict_get e k of Some v \<Rightarrow> Some v | None \<Rightarrow> dict_get d k)"
proof (induction e arbitrary: d)
  case Nil
  show ?case by (simp add: dict_update_def dict_get_def)
next
  case (Cons p e)
  obtain k1 v1 where p: "p = (k1, v1)" by (cases p)
  from Cons.prems p have k1: "dict_get e k1 = None" and de: "distinct (map fst e)"
    by (simp_all add: dict_get_None_iff)
  have step: "dict_update d (p # e) = dict_update (dict_set d k1 v1) e"
    by (simp add: dict_update_def p)
  have get: "dict_get (p # e) k = (if k = k1 then Some v1 else dict_get e k)"
    by (simp add: dict_get_def p)
  show ?case
    unfolding step Cons.IH [OF de] get dict_get_dict_set using k1
    by (simp split: option.splits)
qed

lemma dict_get_merge_blocks:
  "dict_get (merge_blocks gen blocks) k =
   (case dict_get blocks k of Some v \<Rightarrow> Some v | None \<Rightarrow> dict_get gen k)"
proof (induction gen arbitrary: blocks)
  case Nil
  show ?case by (simp add: merge_blocks_def dict_get_def split: option.splits)
next
  case (Cons p gen)
  obtain k1 v1 where p: "p = (k1, v1)" by (cases p)
  let ?b = "if dict_get blocks k1 = None then dict_set blocks k1 v1 else blocks"
  have step: "merge_blocks (p # gen) blocks = merge_blocks gen ?b"
    by (simp add: merge_blocks_def p)
  have get: "dict_get (p # gen) k = (if k = k1 then Some v1 else dict_get gen k)"
    by (simp add: dict_get_def p)
  show ?case
    unfolding step Cons.IH get
    by (auto simp: dict_get_dict_set split: option.splits)
qed

lemma merge_blocks_appends:
  "\<exists>new. merge_blocks gen blocks = blocks @ new"
proof (induction gen arbitrary: blocks)
  case Nil
  show ?case by (simp add: merge_blocks_def)
next
  case (Cons p gen)
  obtain k1 v1 where p: "p = (k1, v1)" by (cases p)
  let ?b = "if dict_get blocks k1 = None then dict_set blocks k1 v1 else blocks"
  have step: "merge_blocks (p # gen) blocks = merge_blocks gen ?b"
    by (simp add: merge_blocks_def p)
  from Cons.IH [of ?b] obtain new where new: "merge_blocks gen ?b = ?b @ new" by blast
  have "\<exists>one. ?b = blocks @ one" by (simp add: dict_set_def)
  then obtain one where "?b = blocks @ one" by blast
  with new step have "merge_blocks (p # gen) blocks = blocks @ (one @ new)" by simp
  then show ?case by blast
qed

lemma dict_get_cones_loop:
  assumes cones: "\<And>p g. distinct (map fst (fst (platform_cone p g)))"
  shows "dict_get (fst (cones_loop ps acc g)) k =
         (case last_writer (generated_cones ps g) k of Some v \<Rightarrow> Some v | None \<Rightarrow> dict_get acc k)"
proof (induction ps arbitrary: acc g)
  case Nil
  show ?case by simp
next
  case (Cons p ps)
  obtain c g1 where pc: "platform_cone p g = (c, g1)" by force
  with cones [of p g] have "distinct (map fst c)" by simp
  note upd = dict_get_dict_update [OF this]
  show ?case
    by (simp add: pc Cons.IH upd split: option.splits)
qed

subsection \<open>Loop invariants and the steps of the generator\<close>

lemma fold_invariant:
  assumes "I s" and "\<And>x s. x \<in> set xs \<Longrightarrow> I s \<Longrightarrow> I (f x s)"
  shows "I (fold f xs s)"
  using assms by (induction xs arbitrary: s) auto

lemma fold2_invariant:
  assumes "I s" and "\<And>x z s. x \<in> set xs \<Longrightarrow> z \<in> set zs \<Longrightarrow> I s \<Longrightarrow> I (f x z s)"
  shows "I (fold (\<lambda>x. fold (f x) zs) xs s)"
proof (rule fold_invariant [where I = I])
  show "I s" by (rule assms(1))
next
  fix x s assume x: "x \<in> set xs" and s: "I s"
  show "I (fold (f x) zs s)"
  proof (rule fold_invariant [where I = I])
    show "I s" by (rule s)
  next
    fix z s assume "z \<in> set zs" "I s"
    with x show "I (f x z s)" by (rule assms(2))
  qed
qed

lemma random_simps:
  "fst (random g) = draws g (pos g)" "draws (snd (random g)) = draws g"
  "pos (snd (random g)) = Suc (pos g)"
  by (simp_all add: random_def)

lemma random_draw:
  "random g = (r, g') \<Longrightarrow> r = draws g (pos g) \<and> draws g' = draws g \<and> pos g' = Suc (pos g)"
  using random_simps [of g] by simp

lemma organic_block_snd:
  "draws (snd (organic_block radius radius_offset distance angle g)) = draws g \<and>
   pos g \<le> pos (snd (organic_block radius radius_offset distance angle g))"
  by (simp add: organic_block_def random_def Let_def split_beta)

lemma organic_block_rng:
  "organic_block radius radius_offset distance angle g = (b, g') \<Longrightarrow>
   draws g' = draws g \<and> pos g \<le> pos g'"
  using organic_block_snd [of radius radius_offset distance angle g] by simp

lemma organic_cell_cases:
  assumes "organic_cell cx cz radius angles offsets x z (d, g) = (d', g')"
  shows "draws g' = draws g \<and> pos g \<le> pos g' \<and>
         (if sqrt (real_of_int (x * x + z * z))
               \<le> real_of_int radius * get_radius_offset angles offsets (atan2 (real_of_int z) (real_of_int x))
          then \<exists>b. d' = dict_set d (coord_key (x + cx) 0 (z + cz)) b
          else d' = d)"
proof -
  let ?dist = "sqrt (real_of_int (x * x + z * z))"
  let ?angle = "atan2 (real_of_int z) (real_of_int x)"
  let ?ro = "get_radius_offset angles offsets ?angle"
  show ?thesis
  proof (cases "?dist \<le> real_of_int radius * ?ro")
    case False
    with assms show ?thesis by (simp add: organic_cell_def)
  next
    case True
    obtain b g1 where ob: "organic_block radius ?ro ?dist ?angle g = (b, g1)" by force
    with assms True have "d' = dict_set d (coord_key (x + cx) 0 (z + cz)) b" "g' = g1"
      by (simp_all add: organic_cell_def)
    with organic_block_rng [OF ob] True show ?thesis by auto
  qed
qed

lemma hanging_block_eq:
  "hanging_block g =
     (two_draw_block (draws g (pos g)) (draws g (Suc (pos g))),
      g\<lparr>pos := (if draws g (pos g) < 0.6 then pos g + 1 else pos g + 2)\<rparr>)"
  by (simp add: hanging_block_def two_draw_block_def random_def)

lemma edge_skip_rng:
  "draws (snd (edge_skip radius distance g)) = draws g"
  "pos (snd (edge_skip radius distance g)) = (if radius - 2 < distance then pos g + 1 else pos g)"
  by (simp_all add: edge_skip_def random_def)

lemma hanging_cell_cases:
  assumes "hanging_cell cx cz y radius x z (d, g) = (d', g')"
  shows "draws g' = draws g \<and> pos g \<le> pos g' \<and>
         (d' = d \<or>
          (sqrt (real_of_int (x * x + z * z)) \<le> radius \<and>
           (\<exists>n. pos g \<le> n \<and> n < pos g' \<and>
                n = (if radius - 2 < sqrt (real_of_int (x * x + z * z)) then pos g + 1 else pos g) \<and>
                (0.6 \<le> draws g n \<longrightarrow> Suc n < pos g') \<and>
                d' = dict_set d (coord_key (x + cx) (- y) (z + cz))
                       (two_draw_block (draws g n) (draws g (Suc n))))))"
proof -
  define dist where "dist = sqrt (real_of_int (x * x + z * z))"
  have hc: "hanging_cell cx cz y radius x z (d, g) =
      (if dist \<le> radius then
         (case edge_skip radius dist g of
            (skip, g1) \<Rightarrow>
              if skip then (d, g1)
              else (case hanging_block g1 of
                      (block_id, g2) \<Rightarrow>
                        (dict_set d (coord_key (x + cx) (- y) (z + cz)) block_id, g2)))
       else (d, g))"
    unfolding hanging_cell_def dist_def Let_def by (simp only: prod.case)
  show ?thesis
  proof (cases "dist \<le> radius")
    case False
    with assms hc show ?thesis by simp
  next
    case inside: True
    obtain skip g1 where sk: "edge_skip radius dist g = (skip, g1)" by force
    from edge_skip_rng [of radius dist g] sk
    have g1: "draws g1 = draws g" "pos g1 = (if radius - 2 < dist then pos g + 1 else pos g)"
      by simp_all
    show ?thesis
    proof (cases skip)
      case True
      with assms hc inside sk have "d' = d" "g' = g1" by simp_all
      with g1 show ?thesis by simp
    next
      case False
      let ?b = "two_draw_block (draws g (pos g1)) (draws g (Suc (pos g1)))"
      from assms hc inside sk False
      have d': "d' = dict_set d (coord_key (x + cx) (- y) (z + cz)) (fst (hanging_block g1))"
        and g': "g' = snd (hanging_block g1)"
        by (simp_all add: split_beta)
      have b: "fst (hanging_block g1) = ?b"
        by (simp add: hanging_block_eq g1(1))
      have dr: "draws g' = draws g"
        and ps: "pos g' = (if draws g (pos g1) < 0.6 then pos g1 + 1 else pos g1 + 2)"
        by (simp_all add: g' hanging_block_eq g1(1))
      have "pos g \<le> pos g1" by (simp add: g1(2))
      moreover have "pos g1 < pos g'" by (simp add: ps)
      moreover have "0.6 \<le> draws g (pos g1) \<longrightarrow> Suc (pos g1) < pos g'" by (simp add: ps)
      moreover have "d' = dict_set d (coord_key (x + cx) (- y) (z + cz)) ?b"
        by (simp add: d' b)
      moreover have "pos g1 = (if radius - 2 < dist then pos g + 1 else pos g)" by (rule g1(2))
      ultimately have "\<exists>n. pos g \<le> n \<and> n < pos g' \<and>
                n = (if radius - 2 < dist then pos g + 1 else pos g) \<and>
                (0.6 \<le> draws g n \<longrightarrow> Suc n < pos g') \<and>
                d' = dict_set d (coord_key (x + cx) (- y) (z + cz))
                       (two_draw_block (draws g n) (draws g (Suc n)))"
        by (intro exI [of _ "pos g1"] conjI)
      moreover have "pos g \<le> pos g'" using \<open>pos g \<le> pos g1\<close> \<open>pos g1 < pos g'\<close> by simp
      ultimately show ?thesis using dr inside unfolding dist_def by blast
    qed
  qed
qed

lemma uniform_list_rng:
  "draws (snd (uniform_list n a b g)) = draws g \<and> pos (snd (uniform_list n a b g)) = pos g + n \<and>
   fst (uniform_list n a b g) = map (\<lambda>i. a + (b - a) * draws g (pos g + i)) [0..<n]"
proof (induction n arbitrary: g)
  case 0
  show ?case by simp
next
  case (Suc n)
  let ?g1 = "snd (uniform a b g)"
  have u: "fst (uniform a b g) = a + (b - a) * draws g (pos g)" "draws ?g1 = draws g"
    "pos ?g1 = Suc (pos g)"
    by (simp_all add: uniform_def random_def)
  have "[0..<Suc n] = 0 # map Suc [0..<n]"
    by (simp add: upt_conv_Cons map_Suc_upt del: upt_Suc)
  then have "map (\<lambda>i. a + (b - a) * draws g (pos g + i)) [0..<Suc n] =
        (a + (b - a) * draws g (pos g)) # map (\<lambda>i. a + (b - a) * draws g (Suc (pos g) + i)) [0..<n]"
    by (simp add: comp_def)
  with Suc [of ?g1] u show ?case by (simp add: split_beta)
qed

lemma noise_points_rng:
  assumes "noise_points g = (angles, offsets, g2)"
  shows "draws g2 = draws g" "pos g2 = pos g + 16"
    "angles = map (\<lambda>i. 0 + (2 * pi - 0) * draws g (pos g + i)) [0..<8]"
    "offsets = map (\<lambda>i. 0.8 + (1.2 - 0.8) * draws g (pos g + 8 + i)) [0..<8]"
proof -
  let ?u1 = "uniform_list 8 0 (2 * pi) g"
  let ?u2 = "uniform_list 8 0.8 1.2 (snd ?u1)"
  from assms have e: "angles = fst ?u1" "offsets = fst ?u2" "g2 = snd ?u2"
    by (simp_all add: noise_points_def split_beta)
  note a = uniform_list_rng [of 8 0 "2 * pi" g]
  note b = uniform_list_rng [of 8 "0.8" "1.2" "snd ?u1"]
  show "draws g2 = draws g" using a b e by simp
  show "pos g2 = pos g + 16" using a b e by simp
  show "angles = map (\<lambda>i. 0 + (2 * pi - 0) * draws g (pos g + i)) [0..<8]"
    using a e by blast
  show "offsets = map (\<lambda>i. 0.8 + (1.2 - 0.8) * draws g (pos g + 8 + i)) [0..<8]"
    using a b e by simp
qed

text \<open>Invariants of the cap layer loop.\<close>

lemma cap_layer_rule:
  assumes np: "noise_points g = (angles, offsets, g2)"
    and init: "I ([], g2)"
    and step: "\<And>x z s. x \<in> {- (radius + 2)..radius + 2} \<Longrightarrow> z \<in> {- (radius + 2)..radius + 2} \<Longrightarrow>
                 I s \<Longrightarrow> I (organic_cell cx cz radius angles offsets x z s)"
  shows "I (create_organic_platform_layer cx cz radius g)"
proof -
  have "create_organic_platform_layer cx cz radius g =
        fold (\<lambda>x. fold (organic_cell cx cz radius angles offsets x) [- (radius + 2)..radius + 2])
             [- (radius + 2)..radius + 2] ([], g2)"
    by (simp add: create_organic_platform_layer_def np Let_def)
  moreover have "I (fold (\<lambda>x. fold (organic_cell cx cz radius angles offsets x)
                   [- (radius + 2)..radius + 2]) [- (radius + 2)..radius + 2] ([], g2))"
    by (rule fold2_invariant [where I = I]) (use init step in auto)
  ultimately show ?thesis by simp
qed

lemma hanging_layer_rule:
  assumes init: "I s"
    and step: "\<And>x z s. I s \<Longrightarrow>
                 I (hanging_cell cx cz y (current_radius max_radius depth y) x z s)"
  shows "I (hanging_layer cx cz max_radius depth y s)"
  unfolding hanging_layer_def Let_def
  by (rule fold2_invariant [where I = I]) (use init step in auto)

lemma generate_hanging_cone_rule:
  assumes cap: "\<And>d g1. create_organic_platform_layer cx cz 15 g = (d, g1) \<Longrightarrow>
                  I (dict_update [] d, g1)"
    and step: "\<And>y x z s. 1 \<le> y \<Longrightarrow> y \<le> depth - 1 \<Longrightarrow> I s \<Longrightarrow>
                 I (hanging_cell cx cz y (current_radius 15 depth y) x z s)"
  shows "I (generate_hanging_cone cx cz start_y depth g)"
proof -
  obtain d g1 where c: "create_organic_platform_layer cx cz 15 g = (d, g1)" by force
  have "I (fold (hanging_layer cx cz 15 depth) [1..depth - 1] (dict_update [] d, g1))"
  proof (rule fold_invariant [where I = I])
    show "I (dict_update [] d, g1)" by (rule cap [OF c])
  next
    fix y s assume "y \<in> set [1..depth - 1]" "I s"
    then have y: "1 \<le> y" "y \<le> depth - 1" and s: "I s" by simp_all
    show "I (hanging_layer cx cz 15 depth y s)"
    proof (rule hanging_layer_rule [where I = I])
      show "I s" by (rule s)
    next
      fix x z s assume "I s"
      with y show "I (hanging_cell cx cz y (current_radius 15 depth y) x z s)" by (rule step)
    qed
  qed
  then show ?thesis by (simp add: generate_hanging_cone_def c)
qed

lemma organic_cell_distinct:
  "distinct (map fst (fst s)) \<Longrightarrow>
   distinct (map fst (fst (organic_cell cx cz radius angles offsets x z s)))"
proof -
  assume d: "distinct (map fst (fst s))"
  obtain d0 g0 where s: "s = (d0, g0)" by (cases s)
  obtain d1 g1 where c: "organic_cell cx cz radius angles offsets x z (d0, g0) = (d1, g1)" by force
  from organic_cell_cases [OF c] have "d1 = d0 \<or> (\<exists>k b. d1 = dict_set d0 k b)"
    by (auto split: if_splits)
  with d s c show ?thesis by (auto simp: distinct_dict_set)
qed

lemma hanging_cell_distinct:
  "distinct (map fst (fst s)) \<Longrightarrow>
   distinct (map fst (fst (hanging_cell cx cz y radius x z s)))"
proof -
  assume d: "distinct (map fst (fst s))"
  obtain d0 g0 where s: "s = (d0, g0)" by (cases s)
  obtain d1 g1 where c: "hanging_cell cx cz y radius x z (d0, g0) = (d1, g1)" by force
  from hanging_cell_cases [OF c] have "d1 = d0 \<or> (\<exists>k b. d1 = dict_set d0 k b)"
    by blast
  with d s c show ?thesis by (auto simp: distinct_dict_set)
qed

lemma distinct_cap_layer:
  "distinct (map fst (fst (create_organic_platform_layer cx cz radius g)))"
proof -
  obtain angles offsets g2 where np: "noise_points g = (angles, offsets, g2)"
    by (metis prod_cases3)
  show ?thesis
    by (rule cap_layer_rule [where I = "\<lambda>s. distinct (map fst (fst s))", OF np])
       (simp_all add: organic_cell_distinct)
qed

lemma distinct_cone:
  "distinct (map fst (fst (generate_hanging_cone cx cz start_y depth g)))"
proof (rule generate_hanging_cone_rule [where I = "\<lambda>s. distinct (map fst (fst s))"])
  fix d g1 assume "create_organic_platform_layer cx cz 15 g = (d, g1)"
  show "distinct (map fst (fst (dict_update [] d, g1)))"
    by (simp add: distinct_dict_update)
next
  fix y x z and s :: "blocks \<times> rng" assume "distinct (map fst (fst s))"
  then show "distinct (map fst (fst (hanging_cell cx cz y (current_radius 15 depth y) x z s)))"
    by (rule hanging_cell_distinct)
qed

lemma distinct_platform_cone: "distinct (map fst (fst (platform_cone p g)))"
  by (simp add: platform_cone_def Let_def distinct_cone)

text \<open>
  Claim C10. The block map accumulated over the platforms holds, at every key, the value
  of the latest generated cone that has the key: when two cones produce the same key the
  later platform's value stays (for two platforms \<open>p\<close> then \<open>q\<close>, the value of the cone
  of \<open>q\<close> wherever that cone has the key). That value is the one merged into the grid
  when the grid has no entry at the key.
\<close>

theorem later_platform_wins:
  "dict_get (fst (cones_loop platforms [] g)) k = last_writer (generated_cones platforms g) k \<and>
   dict_get (merge_blocks (fst (cones_loop platforms [] g)) blocks) k =
     (case dict_get blocks k of
        Some v \<Rightarrow> Some v
      | None \<Rightarrow> last_writer (generated_cones platforms g) k) \<and>
   dict_get (fst (cones_loop [p, q] [] g)) k =
     (case dict_get (fst (platform_cone q (snd (platform_cone p g)))) k of
        Some w \<Rightarrow> Some w
      | None \<Rightarrow> dict_get (fst (platform_cone p g)) k)"
proof -
  have acc: "dict_get (fst (cones_loop ps [] g)) k = last_writer (generated_cones ps g) k" for ps
    using dict_get_cones_loop [of ps "[]" g k, OF distinct_platform_cone]
    by (simp add: dict_get_def split: option.splits)
  have "dict_get (fst (cones_loop [p, q] [] g)) k =
     (case dict_get (fst (platform_cone q (snd (platform_cone p g)))) k of
        Some w \<Rightarrow> Some w
      | None \<Rightarrow> dict_get (fst (platform_cone p g)) k)"
    unfolding acc by (simp add: split_beta)
  with acc [of platforms] show ?thesis
    by (simp add: dict_get_merge_blocks split: option.splits)
qed

text \<open>
  Claim C3. When \<open>main\<close> reaches the merge, every key of the original grid keeps its
  original value, the original entries stay in place, and the saved grid is the original
  one followed by new entries: a key has a new value only if it was absent from the
  original grid and a cone generated it.
\<close>

theorem merge_keeps_grid:
  assumes "main_blocks blocks g = Inr out"
  shows "(\<forall>k v. dict_get blocks k = Some v \<longrightarrow> dict_get out k = Some v) \<and>
         (\<exists>platforms new.
            find_platforms blocks = Inr platforms \<and> out = blocks @ new \<and>
            (\<forall>k. dict_get out k =
                  (case dict_get blocks k of
                     Some v \<Rightarrow> Some v
                   | None \<Rightarrow> dict_get (fst (cones_loop platforms [] g)) k)))"
proof -
  from assms obtain platforms where fp: "find_platforms blocks = Inr platforms"
    by (cases "find_platforms blocks") (simp_all add: main_blocks_def)
  let ?gen = "fst (cones_loop platforms [] g)"
  from assms fp have out: "out = merge_blocks ?gen blocks"
    by (simp add: main_blocks_def split_beta)
  obtain new where new: "out = blocks @ new"
    using merge_blocks_appends [of ?gen blocks] out by blast
  have get: "dict_get out k =
      (case dict_get blocks k of Some v \<Rightarrow> Some v | None \<Rightarrow> dict_get ?gen k)" for k
    unfolding out by (rule dict_get_merge_blocks)
  then have "\<forall>k v. dict_get blocks k = Some v \<longrightarrow> dict_get out k = Some v" by simp
  with fp new get show ?thesis by blast
qed

theorem merge_keeps_grid_witness:
  "\<exists>out. main_blocks square8 half_draws = Inr out \<and>
         dict_get out (coord_key 0 0 0) = Some 24 \<and> take (length square8) out = square8"
proof -
  have fp: "find_platforms square8 = Inr [square_cells 0 0]"
    by (rule square_grid_platforms [OF square8_is_square_grid])
  then obtain out where out: "main_blocks square8 half_draws = Inr out"
    by (simp add: main_blocks_def split_beta)
  have "(0, 0) \<in> square_cells 0 0" by (simp add: square_cells_def)
  then have "dict_get square8 (coord_key 0 0 0) = Some 24"
    using square_grid_get [OF square8_is_square_grid] by blast
  with merge_keeps_grid [OF out] show ?thesis using out by auto
qed

subsection \<open>The radius multiplier of the cap layer\<close>

lemma anchor_weight_bounds: "1 / 2 \<le> anchor_weight angle a" "anchor_weight angle a \<le> 1"
proof -
  have "\<bar>sin (angle - a)\<bar> \<le> 1" by simp
  then have le: "1 + \<bar>sin (angle - a)\<bar> \<le> 2" and pos: "0 < 1 + \<bar>sin (angle - a)\<bar>"
    by linarith+
  from le pos have "1 / 2 \<le> 1 / (1 + \<bar>sin (angle - a)\<bar>)"
    by (intro divide_left_mono) simp_all
  then show "1 / 2 \<le> anchor_weight angle a" by (simp add: anchor_weight_def)
  from pos show "anchor_weight angle a \<le> 1" by (simp add: anchor_weight_def)
qed

lemma radius_sums_fold:
  "radius_sums angles offsets angle = fold (sums_step angle) (zip angles offsets) (0, 0)"
  by (simp add: radius_sums_def sums_step_def)

lemma fold_sums_weights:
  "snd acc + real (length ps) / 2 \<le> snd (fold (sums_step angle) ps acc)"
proof (induction ps arbitrary: acc)
  case Nil
  show ?case by simp
next
  case (Cons p ps)
  obtain a off where p: "p = (a, off)" by (cases p)
  obtain t w where acc: "acc = (t, w)" by (cases acc)
  have s: "snd (sums_step angle p acc) = w + anchor_weight angle a"
    by (simp add: sums_step_def p acc)
  have "snd acc + real (length (p # ps)) / 2 = w + 1 / 2 + real (length ps) / 2"
    by (simp add: acc)
  also have "\<dots> \<le> w + anchor_weight angle a + real (length ps) / 2"
    using anchor_weight_bounds(1) [of angle a] by simp
  also have "\<dots> = snd (sums_step angle p acc) + real (length ps) / 2"
    by (simp only: s)
  also have "\<dots> \<le> snd (fold (sums_step angle) ps (sums_step angle p acc))"
    by (rule Cons)
  finally show ?case by simp
qed

lemma fold_sums_bounds:
  assumes "\<forall>off \<in> snd ` set ps. lo \<le> off \<and> off \<le> hi"
    and "lo * snd acc \<le> fst acc" "fst acc \<le> hi * snd acc"
  shows "lo * snd (fold (sums_step angle) ps acc) \<le> fst (fold (sums_step angle) ps acc) \<and>
         fst (fold (sums_step angle) ps acc) \<le> hi * snd (fold (sums_step angle) ps acc)"
  using assms
proof (induction ps arbitrary: acc)
  case Nil
  then show ?case by simp
next
  case (Cons p ps)
  obtain a off where p: "p = (a, off)" by (cases p)
  obtain t w where acc: "acc = (t, w)" by (cases acc)
  let ?w = "anchor_weight angle a"
  have w: "0 \<le> ?w" using anchor_weight_bounds(1) [of angle a] by simp
  from Cons.prems(1) p have off: "lo \<le> off" "off \<le> hi" by auto
  have st: "sums_step angle p acc = (t + off * ?w, w + ?w)"
    by (simp add: sums_step_def p acc)
  have "lo * ?w \<le> off * ?w" "off * ?w \<le> hi * ?w"
    using off w by (simp_all add: mult_right_mono)
  with Cons.prems(2,3) acc
  have "lo * (w + ?w) \<le> t + off * ?w" "t + off * ?w \<le> hi * (w + ?w)"
    by (simp_all add: algebra_simps)
  with Cons.IH [of "sums_step angle p acc"] Cons.prems(1) st show ?case by simp
qed

lemma radius_sums_positive:
  assumes "length angles = 8" "length offsets = 8"
  shows "4 \<le> snd (radius_sums angles offsets angle)"
  using fold_sums_weights [of "(0, 0)" "zip angles offsets" angle] assms
  by (simp add: radius_sums_fold)

lemma get_radius_offset_bounds:
  assumes len: "length angles = 8" "length offsets = 8"
    and off: "\<forall>off \<in> set offsets. lo \<le> off \<and> off \<le> hi"
  shows "lo \<le> get_radius_offset angles offsets angle"
    "get_radius_offset angles offsets angle \<le> hi"
proof -
  obtain t w where tw: "radius_sums angles offsets angle = (t, w)" by force
  from radius_sums_positive [OF len, of angle] tw have w: "0 < w" by simp
  have "\<forall>off \<in> snd ` set (zip angles offsets). lo \<le> off \<and> off \<le> hi"
    using off by (auto dest: set_zip_rightD)
  from fold_sums_bounds [OF this, of "(0, 0)" angle] tw
  have "lo * w \<le> t" "t \<le> hi * w" by (simp_all add: radius_sums_fold)
  with w have "lo \<le> t / w" "t / w \<le> hi"
    by (simp_all add: pos_le_divide_eq pos_divide_le_eq)
  with tw w show "lo \<le> get_radius_offset angles offsets angle"
    "get_radius_offset angles offsets angle \<le> hi"
    by (simp_all add: get_radius_offset_def)
qed

lemma noise_points_lengths:
  assumes "noise_points g = (angles, offsets, g2)"
  shows "length angles = 8" "length offsets = 8"
  using noise_points_rng(3,4) [OF assms] by simp_all

lemma noise_points_offsets:
  assumes np: "noise_points g = (angles, offsets, g2)"
    and dr: "\<forall>n. lo \<le> draws g n \<and> draws g n \<le> hi"
  shows "\<forall>off \<in> set offsets. 0.8 + 0.4 * lo \<le> off \<and> off \<le> 0.8 + 0.4 * hi"
proof
  fix off assume "off \<in> set offsets"
  with noise_points_rng(4) [OF np] obtain i where "off = 0.8 + (1.2 - 0.8) * draws g (pos g + 8 + i)"
    by auto
  with dr [rule_format, of "pos g + 8 + i"] show "0.8 + 0.4 * lo \<le> off \<and> off \<le> 0.8 + 0.4 * hi"
    by simp
qed

text \<open>
  Claim C9. Every anchor weight \<open>1 / (1 + |sin (angle - anchor_angle)|)\<close> is at least
  \<open>1/2\<close>, so with the eight anchors the cap layer draws the weight sum is positive and
  \<open>get_radius_offset\<close> returns the quotient: the branch that returns 1 is never taken.
\<close>

theorem weight_sum_positive:
  assumes "noise_points g = (angles, offsets, g2)"
  shows "(\<forall>a \<in> set angles. 1 / 2 \<le> anchor_weight angle a) \<and>
         0 < snd (radius_sums angles offsets angle) \<and>
         get_radius_offset angles offsets angle =
           fst (radius_sums angles offsets angle) / snd (radius_sums angles offsets angle)"
proof -
  note len = noise_points_lengths [OF assms]
  from radius_sums_positive [OF len, of angle]
  have "0 < snd (radius_sums angles offsets angle)" by simp
  moreover have "\<forall>a \<in> set angles. 1 / 2 \<le> anchor_weight angle a"
    using anchor_weight_bounds(1) by blast
  ultimately show ?thesis
    by (simp add: get_radius_offset_def split_beta)
qed

theorem weight_sum_positive_witness:
  "\<exists>angles offsets g2. noise_points half_draws = (angles, offsets, g2) \<and>
     0 < snd (radius_sums angles offsets 0) \<and>
     get_radius_offset angles offsets 0 =
       fst (radius_sums angles offsets 0) / snd (radius_sums angles offsets 0)"
proof -
  obtain angles offsets g2 where np: "noise_points half_draws = (angles, offsets, g2)"
    by (metis prod_cases3)
  from weight_sum_positive [OF np, of 0] np show ?thesis by blast
qed

subsection \<open>Cells of the cap layer\<close>

lemma dict_get_update_empty:
  "distinct (map fst d) \<Longrightarrow> dict_get (dict_update [] d) k = dict_get d k"
  by (simp add: dict_get_dict_update) (simp add: dict_get_def split: option.splits)

lemma fold_establish:
  assumes x0: "x0 \<in> set xs" and I: "I s"
    and inv: "\<And>x s. I s \<Longrightarrow> I (f x s)"
    and est: "\<And>s. I s \<Longrightarrow> M (f x0 s)"
    and pres: "\<And>x s. I s \<Longrightarrow> M s \<Longrightarrow> M (f x s)"
  shows "M (fold f xs s) \<and> I (fold f xs s)"
proof -
  from x0 obtain as bs where xs: "xs = as @ x0 # bs" by (auto simp: in_set_conv_decomp)
  let ?s1 = "fold f as s"
  have I1: "I ?s1" by (rule fold_invariant [where I = I]) (use I inv in auto)
  let ?s2 = "f x0 ?s1"
  have "M ?s2 \<and> I ?s2" using est [OF I1] inv [OF I1] by simp
  then have "M (fold f bs ?s2) \<and> I (fold f bs ?s2)"
    by (rule fold_invariant [where I = "\<lambda>s. M s \<and> I s"]) (use inv pres in auto)
  then show ?thesis by (simp add: xs)
qed

lemma fold2_establish:
  assumes x0: "x0 \<in> set xs" and z0: "z0 \<in> set zs" and I: "I s"
    and inv: "\<And>x z s. I s \<Longrightarrow> I (f x z s)"
    and est: "\<And>s. I s \<Longrightarrow> M (f x0 z0 s)"
    and pres: "\<And>x z s. I s \<Longrightarrow> M s \<Longrightarrow> M (f x z s)"
  shows "M (fold (\<lambda>x. fold (f x) zs) xs s) \<and> I (fold (\<lambda>x. fold (f x) zs) xs s)"
proof (rule fold_establish [where I = I and M = M, OF x0 I])
  fix x s assume "I s"
  then show "I (fold (f x) zs s)"
    by (rule fold_invariant [where I = I]) (use inv in auto)
next
  fix s assume "I s"
  with z0 have "M (fold (f x0) zs s) \<and> I (fold (f x0) zs s)"
    by (rule fold_establish [where I = I and M = M]) (use inv est pres in auto)
  then show "M (fold (f x0) zs s)" by simp
next
  fix x s assume "I s" "M s"
  then have "M (fold (f x) zs s) \<and> I (fold (f x) zs s)"
    by (intro fold_invariant [where I = "\<lambda>s. M s \<and> I s"]) (use inv pres in auto)
  then show "M (fold (f x) zs s)" by simp
qed

lemma organic_cell_keys:
  assumes "organic_cell cx cz radius angles offsets x z s = s'"
    and "\<bar>x\<bar> \<le> radius + 2" "\<bar>z\<bar> \<le> radius + 2"
    and "dict_get (fst s') k \<noteq> None"
  shows "dict_get (fst s) k \<noteq> None \<or> in_cap cx cz radius angles offsets k"
proof -
  obtain d g where s: "s = (d, g)" by (cases s)
  obtain d' g' where s': "s' = (d', g')" by (cases s')
  note c = organic_cell_cases [OF assms(1) [unfolded s s']]
  show ?thesis
  proof (cases "d' = d")
    case True
    with assms(4) s s' show ?thesis by simp
  next
    case False
    with c obtain b where inc: "sqrt (real_of_int (x * x + z * z))
               \<le> real_of_int radius * get_radius_offset angles offsets (atan2 (real_of_int z) (real_of_int x))"
      and d': "d' = dict_set d (coord_key (x + cx) 0 (z + cz)) b"
      by (auto split: if_splits)
    show ?thesis
    proof (cases "k = coord_key (x + cx) 0 (z + cz)")
      case True
      with inc assms(2,3) show ?thesis unfolding in_cap_def by blast
    next
      case False
      with assms(4) s s' d' show ?thesis by (simp add: dict_get_dict_set)
    qed
  qed
qed

lemma cap_layer_keys:
  assumes np: "noise_points g = (angles, offsets, g2)"
    and k: "dict_get (fst (create_organic_platform_layer cx cz radius g)) k \<noteq> None"
  shows "in_cap cx cz radius angles offsets k"
proof -
  let ?I = "\<lambda>s :: blocks \<times> rng. \<forall>k. dict_get (fst s) k \<noteq> None \<longrightarrow> in_cap cx cz radius angles offsets k"
  have "?I (create_organic_platform_layer cx cz radius g)"
  proof (rule cap_layer_rule [where I = ?I, OF np])
    show "?I ([], g2)" by (simp add: dict_get_def)
  next
    fix x z and s :: "blocks \<times> rng"
    assume "x \<in> {- (radius + 2)..radius + 2}" "z \<in> {- (radius + 2)..radius + 2}" and s: "?I s"
    then have "\<bar>x\<bar> \<le> radius + 2" "\<bar>z\<bar> \<le> radius + 2" by auto
    from organic_cell_keys [OF refl this] s
    show "?I (organic_cell cx cz radius angles offsets x z s)" by blast
  qed
  with k show ?thesis by blast
qed

lemma organic_cell_rng:
  "draws (snd (organic_cell cx cz radius angles offsets x z s)) = draws (snd s) \<and>
   pos (snd s) \<le> pos (snd (organic_cell cx cz radius angles offsets x z s))"
proof -
  obtain d g where s: "s = (d, g)" by (cases s)
  obtain d' g' where c: "organic_cell cx cz radius angles offsets x z (d, g) = (d', g')" by force
  from organic_cell_cases [OF c] show ?thesis by (simp add: s c)
qed

lemma cap_layer_rng:
  "draws (snd (create_organic_platform_layer cx cz radius g)) = draws g \<and>
   pos g \<le> pos (snd (create_organic_platform_layer cx cz radius g))"
proof -
  obtain angles offsets g2 where np: "noise_points g = (angles, offsets, g2)"
    by (metis prod_cases3)
  let ?I = "\<lambda>s :: blocks \<times> rng. draws (snd s) = draws g \<and> pos g \<le> pos (snd s)"
  show ?thesis
  proof (rule cap_layer_rule [where I = ?I, OF np])
    show "?I ([], g2)" using noise_points_rng(1,2) [OF np] by simp
  next
    fix x z and s :: "blocks \<times> rng" assume "?I s"
    with organic_cell_rng [of cx cz radius angles offsets x z s]
    show "?I (organic_cell cx cz radius angles offsets x z s)" by simp
  qed
qed

lemma cap_layer_emits:
  assumes np: "noise_points g = (angles, offsets, g2)"
    and x: "\<bar>x\<bar> \<le> radius + 2" and z: "\<bar>z\<bar> \<le> radius + 2"
    and inc: "sqrt (real_of_int (x * x + z * z))
               \<le> real_of_int radius * get_radius_offset angles offsets (atan2 (real_of_int z) (real_of_int x))"
  shows "dict_get (fst (create_organic_platform_layer cx cz radius g)) (coord_key (x + cx) 0 (z + cz)) \<noteq> None"
proof -
  let ?k = "coord_key (x + cx) 0 (z + cz)"
  let ?M = "\<lambda>s :: blocks \<times> rng. dict_get (fst s) ?k \<noteq> None"
  let ?r = "[- (radius + 2)..radius + 2]"
  have eq: "create_organic_platform_layer cx cz radius g =
        fold (\<lambda>x. fold (organic_cell cx cz radius angles offsets x) ?r) ?r ([], g2)"
    by (simp add: create_organic_platform_layer_def np Let_def)
  have "?M (fold (\<lambda>x. fold (organic_cell cx cz radius angles offsets x) ?r) ?r ([], g2)) \<and> True"
  proof (rule fold2_establish [where I = "\<lambda>s. True" and M = ?M and ?x0.0 = x and ?z0.0 = z])
    show "x \<in> set ?r" "z \<in> set ?r" using x z by auto
  next
    fix s :: "blocks \<times> rng"
    obtain d g where s: "s = (d, g)" by (cases s)
    obtain d' g' where c: "organic_cell cx cz radius angles offsets x z (d, g) = (d', g')" by force
    from organic_cell_cases [OF c] inc obtain b where "d' = dict_set d ?k b" by auto
    then show "?M (organic_cell cx cz radius angles offsets x z s)"
      by (simp add: s c dict_get_dict_set)
  next
    fix x' z' and s :: "blocks \<times> rng" assume M: "?M s"
    obtain d g where s: "s = (d, g)" by (cases s)
    obtain d' g' where c: "organic_cell cx cz radius angles offsets x' z' (d, g) = (d', g')" by force
    from organic_cell_cases [OF c] have "d' = d \<or> (\<exists>k b. d' = dict_set d k b)"
      by (auto split: if_splits)
    with M show "?M (organic_cell cx cz radius angles offsets x' z' s)"
      by (auto simp: s c dict_get_dict_set)
  qed simp_all
  with eq show ?thesis by simp
qed

lemma cap_radius_offset_bounds:
  assumes np: "noise_points g = (angles, offsets, g2)"
    and dr: "\<forall>n. lo \<le> draws g n \<and> draws g n \<le> hi"
  shows "0.8 + 0.4 * lo \<le> get_radius_offset angles offsets angle"
    "get_radius_offset angles offsets angle \<le> 0.8 + 0.4 * hi"
  using get_radius_offset_bounds [OF noise_points_lengths [OF np] noise_points_offsets [OF np dr]]
  by simp_all

text \<open>
  Claim C2 fails as stated. With a generator whose draws are all \<open>0.99\<close>, every
  offset is \<open>1.196\<close>, the radius limit is \<open>15 * 1.196 = 17.94\<close> in every direction,
  and the cap layer around \<open>(0, 0)\<close> emits the cell \<open>(12, 13)\<close>, whose distance from
  the centre is \<open>sqrt 313 > 17\<close>.
\<close>

theorem cap_cell_beyond_17:
  "dict_get (fst (create_organic_platform_layer 0 0 15 high_draws)) (coord_key 12 0 13) \<noteq> None \<and>
   coord_key 12 0 13 = ''12,0,13'' \<and> decode_key ''12,0,13'' = Inr (12, 0, 13) \<and>
   17 < sqrt (real_of_int (12 * 12 + 13 * 13)) \<and>
   (\<forall>n. 0 \<le> draws high_draws n \<and> draws high_draws n < 1)"
proof -
  obtain angles offsets g2 where np: "noise_points high_draws = (angles, offsets, g2)"
    by (metis prod_cases3)
  have dr: "\<forall>n. 99 / 100 \<le> draws high_draws n \<and> draws high_draws n \<le> 99 / 100"
    by (simp add: high_draws_def)
  let ?ro = "get_radius_offset angles offsets (atan2 (real_of_int 13) (real_of_int 12))"
  have "0.8 + 0.4 * (99 / 100) \<le> ?ro" by (rule cap_radius_offset_bounds(1) [OF np dr])
  then have ro: "1794 / 100 \<le> real_of_int 15 * ?ro" by simp
  have "sqrt (real_of_int (12 * 12 + 13 * 13)) \<le> 1794 / 100"
    by (rule real_le_lsqrt) (simp_all add: power2_eq_square)
  with ro have inc: "sqrt (real_of_int (12 * 12 + 13 * 13)) \<le> real_of_int 15 * ?ro" by linarith
  have "dict_get (fst (create_organic_platform_layer 0 0 15 high_draws))
          (coord_key (12 + 0) 0 (13 + 0)) \<noteq> None"
    by (rule cap_layer_emits [OF np _ _ inc]) simp_all
  moreover have key: "coord_key 12 0 13 = ''12,0,13''" by code_simp
  moreover have "decode_key ''12,0,13'' = Inr (12, 0, 13)"
    using decode_coord_key [of 12 0 13] key by simp
  moreover have "17 < sqrt (real_of_int (12 * 12 + 13 * 13))"
    by (rule real_less_rsqrt) (simp add: power2_eq_square)
  moreover have "\<forall>n. 0 \<le> draws high_draws n \<and> draws high_draws n < 1"
    by (simp add: high_draws_def)
  ultimately show ?thesis by simp
qed

text \<open>
  Claim C2, amended. For every centre and every sequence of draws in \<open>[0, 1)\<close>, every
  cell the cap layer emits lies in the bounding square of half-width \<open>R + 2 = 17\<close>
  around the centre, at \<open>y = 0\<close>, and within Euclidean distance \<open>1.2 * R = 18\<close> of it.
\<close>

theorem cap_layer_within_box:
  assumes layer: "create_organic_platform_layer cx cz 15 g = (layer, g')"
    and k: "dict_get layer k = Some v"
    and dr: "\<forall>n. 0 \<le> draws g n \<and> draws g n < 1"
  shows "\<exists>x z. k = coord_key (x + cx) 0 (z + cz) \<and> decode_key k = Inr (x + cx, 0, z + cz) \<and>
               \<bar>x\<bar> \<le> 17 \<and> \<bar>z\<bar> \<le> 17 \<and> sqrt (real_of_int (x * x + z * z)) \<le> 18"
proof -
  obtain angles offsets g2 where np: "noise_points g = (angles, offsets, g2)"
    by (metis prod_cases3)
  from layer k have "dict_get (fst (create_organic_platform_layer cx cz 15 g)) k \<noteq> None" by simp
  from cap_layer_keys [OF np this] obtain x z where
    key: "k = coord_key (x + cx) 0 (z + cz)" and box: "\<bar>x\<bar> \<le> 17" "\<bar>z\<bar> \<le> 17"
    and inc: "sqrt (real_of_int (x * x + z * z))
      \<le> real_of_int 15 * get_radius_offset angles offsets (atan2 (real_of_int z) (real_of_int x))"
    unfolding in_cap_def by auto
  from dr have "\<forall>n. 0 \<le> draws g n \<and> draws g n \<le> 1" by (simp add: less_imp_le)
  from cap_radius_offset_bounds(2) [OF np this]
  have "get_radius_offset angles offsets (atan2 (real_of_int z) (real_of_int x)) \<le> 1.2" by simp
  with inc have "sqrt (real_of_int (x * x + z * z)) \<le> 18" by simp
  with key box show ?thesis using decode_coord_key by blast
qed

lemma cap_layer_centre:
  assumes dr: "\<forall>n. 0 \<le> draws g n \<and> draws g n \<le> 1"
  shows "dict_get (fst (create_organic_platform_layer cx cz 15 g)) (coord_key cx 0 cz) \<noteq> None"
proof -
  obtain angles offsets g2 where np: "noise_points g = (angles, offsets, g2)"
    by (metis prod_cases3)
  let ?ro = "get_radius_offset angles offsets (atan2 (real_of_int 0) (real_of_int 0))"
  from cap_radius_offset_bounds(1) [OF np dr] have "0 \<le> ?ro" by (simp add: order_trans [of 0 "0.8"])
  then have inc: "sqrt (real_of_int (0 * 0 + 0 * 0)) \<le> real_of_int 15 * ?ro" by simp
  have "dict_get (fst (create_organic_platform_layer cx cz 15 g))
          (coord_key (0 + cx) 0 (0 + cz)) \<noteq> None"
    by (rule cap_layer_emits [OF np _ _ inc]) simp_all
  then show ?thesis by simp
qed

theorem cap_layer_within_box_witness:
  "\<exists>layer g' v. create_organic_platform_layer 0 0 15 half_draws = (layer, g') \<and>
     dict_get layer (coord_key 0 0 0) = Some v \<and>
     (\<exists>x z. coord_key 0 0 0 = coord_key (x + 0) 0 (z + 0) \<and>
            \<bar>x\<bar> \<le> 17 \<and> \<bar>z\<bar> \<le> 17 \<and> sqrt (real_of_int (x * x + z * z)) \<le> 18)"
proof -
  obtain layer g' where l: "create_organic_platform_layer 0 0 15 half_draws = (layer, g')" by force
  have dr: "\<forall>n. 0 \<le> draws half_draws n \<and> draws half_draws n < 1" by (simp add: half_draws_def)
  then have "\<forall>n. 0 \<le> draws half_draws n \<and> draws half_draws n \<le> 1" by (simp add: half_draws_def)
  from cap_layer_centre [OF this, of 0 0] l obtain v where v: "dict_get layer (coord_key 0 0 0) = Some v"
    by auto
  from cap_layer_within_box [OF l v dr] l v show ?thesis by blast
qed

subsection \<open>The hanging layers\<close>

lemma current_radius_mono:
  assumes "0 < depth" "0 \<le> y" "y \<le> y'" "0 \<le> max_radius"
  shows "current_radius max_radius depth y' \<le> current_radius max_radius depth y"
proof -
  have "real_of_int y / real_of_int depth \<le> real_of_int y' / real_of_int depth"
    using assms by (simp add: divide_right_mono)
  moreover have "0 \<le> real_of_int y / real_of_int depth" using assms by simp
  ultimately have "(real_of_int y / real_of_int depth) powr 0.7
      \<le> (real_of_int y' / real_of_int depth) powr 0.7"
    by (intro powr_mono2) simp_all
  then have "1 - (real_of_int y' / real_of_int depth) powr 0.7
      \<le> 1 - (real_of_int y / real_of_int depth) powr 0.7" by simp
  with assms(4) show ?thesis
    unfolding current_radius_def by (intro mult_left_mono) simp_all
qed

lemma current_radius_at_depth: "depth \<noteq> 0 \<Longrightarrow> current_radius max_radius depth depth = 0"
  by (simp add: current_radius_def)

lemma current_radius_nonneg:
  assumes "0 < depth" "0 \<le> y" "y \<le> depth" "0 \<le> max_radius"
  shows "0 \<le> current_radius max_radius depth y"
  using current_radius_mono [OF assms(1,2,3,4)] current_radius_at_depth [of depth max_radius] assms(1)
  by simp

text \<open>Keys of the cone: cap keys, or keys of a hanging layer.\<close>

lemma hanging_cell_keys:
  assumes "dict_get (fst (hanging_cell cx cz y radius x z s)) k \<noteq> None"
  shows "dict_get (fst s) k \<noteq> None \<or> k = coord_key (x + cx) (- y) (z + cz)"
proof -
  obtain d g where s: "s = (d, g)" by (cases s)
  obtain d' g' where c: "hanging_cell cx cz y radius x z (d, g) = (d', g')" by force
  from hanging_cell_cases [OF c]
  have "d' = d \<or> (\<exists>b. d' = dict_set d (coord_key (x + cx) (- y) (z + cz)) b)" by blast
  with assms s c show ?thesis by (auto simp: dict_get_dict_set split: if_splits)
qed

lemma cone_keys:
  assumes "dict_get (fst (generate_hanging_cone cx cz start_y depth g)) k \<noteq> None"
  shows "dict_get (fst (create_organic_platform_layer cx cz 15 g)) k \<noteq> None \<or>
         (\<exists>X Y Z. k = coord_key X Y Z \<and> 1 - depth \<le> Y \<and> Y \<le> - 1)"
proof -
  let ?cap = "fst (create_organic_platform_layer cx cz 15 g)"
  let ?I = "\<lambda>s :: blocks \<times> rng. \<forall>k. dict_get (fst s) k \<noteq> None \<longrightarrow>
      dict_get ?cap k \<noteq> None \<or> (\<exists>X Y Z. k = coord_key X Y Z \<and> 1 - depth \<le> Y \<and> Y \<le> - 1)"
  have "?I (generate_hanging_cone cx cz start_y depth g)"
  proof (rule generate_hanging_cone_rule [where I = ?I])
    fix d g1 assume c: "create_organic_platform_layer cx cz 15 g = (d, g1)"
    with distinct_cap_layer [of cx cz 15 g] have "distinct (map fst d)" by simp
    with c show "?I (dict_update [] d, g1)" by (simp add: dict_get_update_empty)
  next
    fix y x z and s :: "blocks \<times> rng"
    assume y: "1 \<le> y" "y \<le> depth - 1" and s: "?I s"
    show "?I (hanging_cell cx cz y (current_radius 15 depth y) x z s)"
    proof (intro allI impI)
      fix k assume "dict_get (fst (hanging_cell cx cz y (current_radius 15 depth y) x z s)) k \<noteq> None"
      from hanging_cell_keys [OF this] show "dict_get ?cap k \<noteq> None \<or>
          (\<exists>X Y Z. k = coord_key X Y Z \<and> 1 - depth \<le> Y \<and> Y \<le> - 1)"
      proof
        assume "dict_get (fst s) k \<noteq> None"
        with s show ?thesis by blast
      next
        assume "k = coord_key (x + cx) (- y) (z + cz)"
        moreover from y have "1 - depth \<le> - y" "- y \<le> - 1" by simp_all
        ultimately show ?thesis by blast
      qed
    qed
  qed
  with assms show ?thesis by blast
qed

lemma cap_keys_level:
  assumes "dict_get (fst (create_organic_platform_layer cx cz radius g)) k \<noteq> None"
  shows "\<exists>X Z. k = coord_key X 0 Z"
proof -
  obtain angles offsets g2 where np: "noise_points g = (angles, offsets, g2)"
    by (metis prod_cases3)
  from cap_layer_keys [OF np assms] show ?thesis unfolding in_cap_def by blast
qed

text \<open>The generator does not change the draws, it only takes them.\<close>

lemma hanging_cell_rng:
  "draws (snd (hanging_cell cx cz y radius x z s)) = draws (snd s) \<and>
   pos (snd s) \<le> pos (snd (hanging_cell cx cz y radius x z s))"
proof -
  obtain d g where s: "s = (d, g)" by (cases s)
  obtain d' g' where c: "hanging_cell cx cz y radius x z (d, g) = (d', g')" by force
  from hanging_cell_cases [OF c] show ?thesis by (simp add: s c)
qed

text \<open>With draws that are all \<open>1/2\<close> the cell under the centre is emitted in layer 1.\<close>

lemma hanging_cell_emits:
  assumes inside: "sqrt (real_of_int (x * x + z * z)) \<le> radius"
    and dr: "0.4 \<le> draws g (pos g)"
  shows "\<exists>b. fst (hanging_cell cx cz y radius x z (d, g)) =
             dict_set d (coord_key (x + cx) (- y) (z + cz)) b"
proof -
  define dist where "dist = sqrt (real_of_int (x * x + z * z))"
  have hc: "hanging_cell cx cz y radius x z (d, g) =
      (if dist \<le> radius then
         (case edge_skip radius dist g of
            (skip, g1) \<Rightarrow>
              if skip then (d, g1)
              else (case hanging_block g1 of
                      (block_id, g2) \<Rightarrow>
                        (dict_set d (coord_key (x + cx) (- y) (z + cz)) block_id, g2)))
       else (d, g))"
    unfolding hanging_cell_def dist_def Let_def by (simp only: prod.case)
  have "\<not> fst (edge_skip radius dist g)" using dr by (simp add: edge_skip_def random_def)
  with inside have "fst (hanging_cell cx cz y radius x z (d, g)) =
      dict_set d (coord_key (x + cx) (- y) (z + cz))
        (fst (hanging_block (snd (edge_skip radius dist g))))"
    unfolding hc dist_def [symmetric] by (simp add: split_beta)
  then show ?thesis by (rule exI)
qed

lemma cone_emits_under_centre:
  assumes dr: "\<forall>n. draws g n = 1 / 2" and depth: "2 \<le> depth"
  shows "dict_get (fst (generate_hanging_cone cx cz start_y depth g)) (coord_key cx (- 1) cz) \<noteq> None"
proof -
  let ?k = "coord_key cx (- 1) cz"
  let ?I = "\<lambda>s :: blocks \<times> rng. draws (snd s) = draws g"
  let ?M = "\<lambda>s :: blocks \<times> rng. dict_get (fst s) ?k \<noteq> None"
  have cellI: "?I (hanging_cell cx cz y r x z s)" if "?I s" for y r x z s
    using hanging_cell_rng [of cx cz y r x z s] that by simp
  have cellM: "?M (hanging_cell cx cz y r x z s)" if "?M s" for y r x z s
  proof -
    obtain d g0 where s: "s = (d, g0)" by (cases s)
    obtain d' g' where c: "hanging_cell cx cz y r x z (d, g0) = (d', g')" by force
    from hanging_cell_cases [OF c] have "d' = d \<or> (\<exists>k b. d' = dict_set d k b)" by blast
    with that show ?thesis by (auto simp: s c dict_get_dict_set)
  qed
  have layerI: "?I (hanging_layer cx cz 15 depth y s)" if "?I s" for y s
    by (rule hanging_layer_rule [where I = ?I]) (use that cellI in auto)
  have layerM: "?M (hanging_layer cx cz 15 depth y s)" if "?M s" for y s
    by (rule hanging_layer_rule [where I = ?M]) (use that cellM in auto)
  have est: "?M (hanging_layer cx cz 15 depth 1 s)" if I: "?I s" for s
  proof -
    let ?r = "current_radius 15 depth 1"
    have r: "0 \<le> ?r" using depth by (intro current_radius_nonneg) simp_all
    then have t: "0 \<le> py_trunc ?r" by (simp add: py_trunc_def)
    have "?M (fold (\<lambda>x. fold (hanging_cell cx cz 1 ?r x) [- py_trunc ?r..py_trunc ?r])
                [- py_trunc ?r..py_trunc ?r] s) \<and>
          ?I (fold (\<lambda>x. fold (hanging_cell cx cz 1 ?r x) [- py_trunc ?r..py_trunc ?r])
                [- py_trunc ?r..py_trunc ?r] s)"
    proof (rule fold2_establish [where I = ?I and M = ?M and ?x0.0 = 0 and ?z0.0 = 0])
      show "0 \<in> set [- py_trunc ?r..py_trunc ?r]" "0 \<in> set [- py_trunc ?r..py_trunc ?r]"
        using t by simp_all
      show "?I s" by (rule I)
    next
      fix x z and s :: "blocks \<times> rng" assume "?I s"
      then show "?I (hanging_cell cx cz 1 ?r x z s)" by (rule cellI)
    next
      fix s :: "blocks \<times> rng" assume Is: "?I s"
      obtain d g0 where s: "s = (d, g0)" by (cases s)
      from dr have "draws g (pos g0) = 1 / 2" by (rule spec)
      with Is s have "0.4 \<le> draws g0 (pos g0)" by simp
      moreover have "sqrt (real_of_int (0 * 0 + 0 * 0)) \<le> ?r" using r by simp
      ultimately obtain b where "fst (hanging_cell cx cz 1 ?r 0 0 (d, g0)) =
          dict_set d (coord_key (0 + cx) (- 1) (0 + cz)) b"
        using hanging_cell_emits by blast
      then show "?M (hanging_cell cx cz 1 ?r 0 0 s)" by (simp add: s dict_get_dict_set)
    next
      fix x z and s :: "blocks \<times> rng" assume "?M s"
      then show "?M (hanging_cell cx cz 1 ?r x z s)" by (rule cellM)
    qed
    then show ?thesis by (simp add: hanging_layer_def Let_def)
  qed
  obtain d g1 where c: "create_organic_platform_layer cx cz 15 g = (d, g1)" by force
  with cap_layer_rng [of cx cz 15 g] have g1: "?I (dict_update [] d, g1)" by simp
  have "1 \<in> set [1..depth - 1]" using depth by simp
  then have "?M (fold (hanging_layer cx cz 15 depth) [1..depth - 1] (dict_update [] d, g1)) \<and>
        ?I (fold (hanging_layer cx cz 15 depth) [1..depth - 1] (dict_update [] d, g1))"
    using g1 by (rule fold_establish [where I = ?I and M = ?M]) (use layerI layerM est in auto)
  then show ?thesis by (simp add: generate_hanging_cone_def c)
qed

lemma two_draw_inv_hanging_cell:
  assumes inv: "two_draw_inv g0 s"
  shows "two_draw_inv g0 (hanging_cell cx cz y radius x z s)"
proof -
  obtain d g where s: "s = (d, g)" by (cases s)
  obtain d' g' where c: "hanging_cell cx cz y radius x z (d, g) = (d', g')" by force
  note cs = hanging_cell_cases [OF c]
  from inv s have dg: "draws g = draws g0" and pg: "pos g0 \<le> pos g"
    and old: "\<And>k v. dict_get d k = Some v \<Longrightarrow>
        (\<exists>X Z. k = coord_key X 0 Z) \<or>
        (\<exists>n. pos g0 \<le> n \<and> n < pos g \<and>
             v = two_draw_block (draws g0 n) (draws g0 (Suc n)) \<and>
             (0.6 \<le> draws g0 n \<longrightarrow> Suc n < pos g))"
    by (simp_all add: two_draw_inv_def)
  from cs have dg': "draws g' = draws g" and pg': "pos g \<le> pos g'" by simp_all
  have keep: "(\<exists>X Z. k = coord_key X 0 Z) \<or>
        (\<exists>n. pos g0 \<le> n \<and> n < pos g' \<and>
             v = two_draw_block (draws g0 n) (draws g0 (Suc n)) \<and>
             (0.6 \<le> draws g0 n \<longrightarrow> Suc n < pos g'))" if "dict_get d k = Some v" for k v
  proof -
    from old [OF that] show ?thesis
    proof
      assume "\<exists>X Z. k = coord_key X 0 Z"
      then show ?thesis ..
    next
      assume "\<exists>n. pos g0 \<le> n \<and> n < pos g \<and>
             v = two_draw_block (draws g0 n) (draws g0 (Suc n)) \<and>
             (0.6 \<le> draws g0 n \<longrightarrow> Suc n < pos g)"
      then obtain n where "pos g0 \<le> n" "n < pos g"
        "v = two_draw_block (draws g0 n) (draws g0 (Suc n))"
        "0.6 \<le> draws g0 n \<longrightarrow> Suc n < pos g" by blast
      with pg' have "pos g0 \<le> n \<and> n < pos g' \<and>
             v = two_draw_block (draws g0 n) (draws g0 (Suc n)) \<and>
             (0.6 \<le> draws g0 n \<longrightarrow> Suc n < pos g')" by auto
      then show ?thesis by blast
    qed
  qed
  have new: "(\<exists>X Z. k = coord_key X 0 Z) \<or>
        (\<exists>n. pos g0 \<le> n \<and> n < pos g' \<and>
             v = two_draw_block (draws g0 n) (draws g0 (Suc n)) \<and>
             (0.6 \<le> draws g0 n \<longrightarrow> Suc n < pos g'))" if kv: "dict_get d' k = Some v" for k v
  proof (cases "d' = d")
    case True
    with kv keep show ?thesis by simp
  next
    case False
    with cs obtain n where n: "pos g \<le> n" "n < pos g'" "0.6 \<le> draws g n \<longrightarrow> Suc n < pos g'"
      and d': "d' = dict_set d (coord_key (x + cx) (- y) (z + cz))
                       (two_draw_block (draws g n) (draws g (Suc n)))"
      by blast
    show ?thesis
    proof (cases "k = coord_key (x + cx) (- y) (z + cz)")
      case True
      with kv d' have "v = two_draw_block (draws g0 n) (draws g0 (Suc n))"
        by (simp add: dict_get_dict_set dg)
      with n pg dg have "pos g0 \<le> n \<and> n < pos g' \<and>
             v = two_draw_block (draws g0 n) (draws g0 (Suc n)) \<and>
             (0.6 \<le> draws g0 n \<longrightarrow> Suc n < pos g')" by simp
      then show ?thesis by blast
    next
      case False
      with kv d' have "dict_get d k = Some v" by (simp add: dict_get_dict_set)
      then show ?thesis by (rule keep)
    qed
  qed
  from dg dg' pg pg' new show ?thesis
    unfolding two_draw_inv_def s c by simp
qed

lemma two_draw_inv_cone:
  "two_draw_inv g (generate_hanging_cone cx cz start_y depth g)"
proof (rule generate_hanging_cone_rule [where I = "two_draw_inv g"])
  fix d g1 assume c: "create_organic_platform_layer cx cz 15 g = (d, g1)"
  with distinct_cap_layer [of cx cz 15 g] have dd: "distinct (map fst d)" by simp
  from cap_layer_rng [of cx cz 15 g] c have rng: "draws g1 = draws g" "pos g \<le> pos g1" by simp_all
  have "\<exists>X Z. k = coord_key X 0 Z" if "dict_get d k = Some v" for k v
  proof -
    from that c have "dict_get (fst (create_organic_platform_layer cx cz 15 g)) k \<noteq> None" by simp
    then show ?thesis by (rule cap_keys_level)
  qed
  with rng dd show "two_draw_inv g (dict_update [] d, g1)"
    unfolding two_draw_inv_def by (simp add: dict_get_update_empty)
next
  fix y x z and s :: "blocks \<times> rng"
  assume "two_draw_inv g s"
  then show "two_draw_inv g (hanging_cell cx cz y (current_radius 15 depth y) x z s)"
    by (rule two_draw_inv_hanging_cell)
qed

text \<open>
  Every block of a generated cone off the \<open>y = 0\<close> layer has the value that two
  consecutive draws taken during the generation give.
\<close>

lemma cone_values_from_two_draws:
  assumes cone: "generate_hanging_cone cx cz start_y depth g = (cone, g')"
    and kv: "dict_get cone k = Some v"
    and dec: "decode_key k = Inr (X, Y, Z)" and below: "Y \<noteq> 0"
  shows "\<exists>n. pos g \<le> n \<and> n < pos g' \<and>
              v = two_draw_block (draws g n) (draws g (Suc n)) \<and>
              (0.6 \<le> draws g n \<longrightarrow> Suc n < pos g')"
proof -
  from two_draw_inv_cone [of g cx cz start_y depth] cone kv
  have "(\<exists>X Z. k = coord_key X 0 Z) \<or>
        (\<exists>n. pos g \<le> n \<and> n < pos g' \<and>
             v = two_draw_block (draws g n) (draws g (Suc n)) \<and>
             (0.6 \<le> draws g n \<longrightarrow> Suc n < pos g'))"
    unfolding two_draw_inv_def by simp
  moreover have "\<not> (\<exists>X Z. k = coord_key X 0 Z)"
    using dec below by (auto simp: decode_coord_key)
  ultimately show ?thesis by blast
qed

text \<open>
  Claim C7. \<open>hanging_cell\<close> is the body that the loops of every hanging layer run for
  every cell \<open>(x, z)\<close>, from whatever state the generator is in. When the cell is emitted
  (it lies within the radius and the erosion test does not skip it), its block is chosen
  by the two draws \<open>r1\<close> and \<open>r2\<close> that follow the erosion draw, if there was one, and
  the start of the cell otherwise: stone (37) if \<open>r1 < 0.6\<close>, otherwise mossy
  cobblestone (24) if \<open>r2 < 0.3\<close>, otherwise cobblestone (4). \<open>r1\<close> is a draw of its
  own, not the erosion draw, and \<open>r2\<close> is taken only when \<open>r1\<close> is not below \<open>0.6\<close>. A
  cell that is not emitted leaves the cone as it is.
\<close>

theorem hanging_cell_two_draws:
  assumes dist: "distance = sqrt (real_of_int (x * x + z * z))"
    and n: "n = (if radius - 2 < distance then Suc (pos g) else pos g)"
    and r1: "r1 = draws g n" and r2: "r2 = draws g (Suc n)"
  shows "hanging_cell cx cz y radius x z (cone_blocks, g) =
     (if distance \<le> radius \<and> \<not> (radius - 2 < distance \<and> draws g (pos g) < 0.4)
      then (dict_set cone_blocks (coord_key (x + cx) (- y) (z + cz))
              (if r1 < 0.6 then 37 else if r2 < 0.3 then 24 else 4),
            g\<lparr>pos := (if r1 < 0.6 then n + 1 else n + 2)\<rparr>)
      else (cone_blocks, g\<lparr>pos := (if distance \<le> radius then n else pos g)\<rparr>))"
proof -
  have hc: "hanging_cell cx cz y radius x z (cone_blocks, g) =
      (if distance \<le> radius then
         (case edge_skip radius distance g of
            (skip, g1) \<Rightarrow>
              if skip then (cone_blocks, g1)
              else (case hanging_block g1 of
                      (block_id, g2) \<Rightarrow>
                        (dict_set cone_blocks (coord_key (x + cx) (- y) (z + cz)) block_id, g2)))
       else (cone_blocks, g))"
    unfolding hanging_cell_def dist Let_def by (simp only: prod.case)
  have sk: "edge_skip radius distance g =
      (radius - 2 < distance \<and> draws g (pos g) < 0.4, g\<lparr>pos := n\<rparr>)"
    by (simp add: edge_skip_def random_def n)
  have hb: "hanging_block (g\<lparr>pos := n\<rparr>) =
      (if r1 < 0.6 then 37 else if r2 < 0.3 then 24 else 4,
       g\<lparr>pos := (if r1 < 0.6 then n + 1 else n + 2)\<rparr>)"
    by (simp add: hanging_block_def random_def r1 r2)
  show ?thesis unfolding hc sk by (simp add: hb)
qed

theorem hanging_cell_two_draws_witness:
  "hanging_cell 0 0 1 1 0 0 ([], sample_draws) = ([(''0,-1,0'', 24)], sample_draws\<lparr>pos := 3\<rparr>)"
proof -
  have key: "coord_key 0 (- 1) 0 = ''0,-1,0''" by code_simp
  have d: "draws sample_draws 0 = 1 / 2" "pos sample_draws = 0"
    by (simp_all add: sample_draws_def)
  have h1: "(0 :: real) = sqrt (real_of_int (0 * 0 + 0 * 0))" by simp
  have h2: "Suc 0 = (if (1 :: real) - 2 < 0 then Suc (pos sample_draws) else pos sample_draws)"
    by (simp add: d)
  have h3: "7 / 10 = draws sample_draws (Suc 0)"
    and h4: "1 / 10 = draws sample_draws (Suc (Suc 0))"
    by (simp_all add: sample_draws_def)
  have "Suc 0 + 2 = 3" by simp
  with hanging_cell_two_draws [OF h1 h2 h3 h4, of 0 0 1 "[]"] show ?thesis
    by (simp add: d key dict_set_def dict_get_def)
qed

text \<open>
  Claim C8. For a fixed depth the radius \<open>15 * (1 - (y / depth) ^ 0.7)\<close> does not
  increase as \<open>y\<close> goes from 1 to \<open>depth - 1\<close>, and it is 0 at \<open>y = depth\<close>. A cone
  generated with depth 30 has keys at \<open>y\<close> from \<open>-29\<close> to 0 only, and those at
  \<open>y = 0\<close> are keys of the cap layer: the hanging blocks lie at \<open>y\<close> in \<open>[-29, -1]\<close>,
  none at \<open>y \<le> -30\<close>.
\<close>

theorem taper_and_cone_levels:
  "(1 \<le> y \<and> y \<le> y' \<and> y' \<le> depth - 1 \<longrightarrow>
      current_radius 15 depth y' \<le> current_radius 15 depth y) \<and>
   (0 < depth \<longrightarrow> current_radius 15 depth depth = 0) \<and>
   (dict_get (fst (generate_hanging_cone cx cz start_y 30 g)) k \<noteq> None \<longrightarrow>
      (\<exists>X Y Z. k = coord_key X Y Z \<and> decode_key k = Inr (X, Y, Z) \<and> - 29 \<le> Y \<and> Y \<le> 0 \<and>
         (Y = 0 \<longrightarrow> dict_get (fst (create_organic_platform_layer cx cz 15 g)) k \<noteq> None)))"
proof (intro conjI impI)
  assume "1 \<le> y \<and> y \<le> y' \<and> y' \<le> depth - 1"
  then show "current_radius 15 depth y' \<le> current_radius 15 depth y"
    by (intro current_radius_mono) simp_all
next
  assume "0 < depth"
  then show "current_radius 15 depth depth = 0" by (simp add: current_radius_at_depth)
next
  assume "dict_get (fst (generate_hanging_cone cx cz start_y 30 g)) k \<noteq> None"
  from cone_keys [OF this]
  show "\<exists>X Y Z. k = coord_key X Y Z \<and> decode_key k = Inr (X, Y, Z) \<and> - 29 \<le> Y \<and> Y \<le> 0 \<and>
         (Y = 0 \<longrightarrow> dict_get (fst (create_organic_platform_layer cx cz 15 g)) k \<noteq> None)"
  proof
    assume cap: "dict_get (fst (create_organic_platform_layer cx cz 15 g)) k \<noteq> None"
    from cap_keys_level [OF this] obtain X Z where "k = coord_key X 0 Z" by blast
    with cap show ?thesis using decode_coord_key [of X 0 Z] by (intro exI [of _ X] exI [of _ 0] exI [of _ Z]) simp
  next
    assume "\<exists>X Y Z. k = coord_key X Y Z \<and> 1 - 30 \<le> Y \<and> Y \<le> - 1"
    then obtain X Y Z where "k = coord_key X Y Z" "- 29 \<le> Y" "Y \<le> - 1" by auto
    then show ?thesis using decode_coord_key [of X Y Z]
      by (intro exI [of _ X] exI [of _ Y] exI [of _ Z]) simp
  qed
qed

theorem taper_and_cone_levels_witness:
  "current_radius 15 30 2 \<le> current_radius 15 30 1 \<and> current_radius 15 30 30 = 0 \<and>
   dict_get (fst (generate_hanging_cone 0 0 0 30 half_draws)) (coord_key 0 (- 1) 0) \<noteq> None \<and>
   (\<exists>X Y Z. coord_key 0 (- 1) 0 = coord_key X Y Z \<and> - 29 \<le> Y \<and> Y \<le> 0)"
proof -
  have "\<forall>n. draws half_draws n = 1 / 2" by (simp add: half_draws_def)
  from cone_emits_under_centre [OF this, of 30 0 0 0]
  have k: "dict_get (fst (generate_hanging_cone 0 0 0 30 half_draws)) (coord_key 0 (- 1) 0) \<noteq> None"
    by simp
  from taper_and_cone_levels [of 1 2 30 0 0 0 half_draws "coord_key 0 (- 1) 0"] k
  show ?thesis by auto
qed

end
